theory Spec2Isabelle
  imports Main
begin

section \<open>Push-to-talk transcription session: data model\<close>

text \<open>
  The program is a React component \<open>App\<close> together with the hook \<open>useMicrophone\<close>
  and the module \<open>lib/deepgram\<close>. Its mutable state (React state cells and ref cells)
  is one record; the objects it talks to (the browser's timers, MediaRecorder and
  MediaStream objects, the SDK's live connections) live in explicit stores indexed by
  the order of their creation, and every call made on an SDK object is appended to a
  trace. All handlers run on one event loop, so each is a function from state to state.
\<close>

datatype connection_status = Offline | Connecting | Online | Error

text \<open>A thrown JavaScript value, of which the code reads only \<open>message\<close>.\<close>

datatype js_error = JsError (message: "string option")

text \<open>A \<open>Blob\<close> of recorded audio; \<open>size\<close> is the number of its bytes.\<close>

datatype blob = Blob (bytes: "nat list")

definition blob_size :: "blob \<Rightarrow> nat" where
  "blob_size b = length (bytes b)"

text \<open>The payload of a transcript message, as far as \<open>handleResults\<close> reads it.\<close>

datatype alternative = Alternative (transcript: "string option")

datatype channel = Channel (alternatives: "alternative list option")

record results_data =
  channel :: "channel option"
  is_final :: bool

text \<open>The options object handed to \<open>deepgram.listen.live\<close>.\<close>

record live_options =
  model :: string
  language :: string
  smart_format :: bool

text \<open>
  A live connection object of the SDK: the options it was created with, what
  \<open>getReadyState()\<close> answers (1 is open), and the recorder of the \<open>handleStart\<close>
  call that is suspended on the promise \<open>initConnection\<close> made for it, while that
  promise is unsettled.
\<close>

record live_conn =
  options :: live_options
  readyState :: nat
  waiter :: "nat option"

text \<open>Calls made on SDK objects, in program order.\<close>

datatype sdk_call =
    ListenLive nat live_options
  | Send nat blob
  | KeepAlive nat
  | Finish nat

datatype recorder_state = Inactive | Recording

record media_recorder =
  rstream :: nat
  mimeType :: string
  rstate :: recorder_state
  timeslice :: "nat option"
  ondataavailable_set :: bool

text \<open>
  A pending browser timer: its id, the time at which it is due, and its callback.
  \<open>GraceClose\<close> is the \<open>setTimeout\<close> callback of \<open>handleStop\<close>, \<open>Heartbeat\<close> the
  \<open>setInterval\<close> callback of \<open>startKeepAlive\<close>.
\<close>

datatype timer_callback = GraceClose | Heartbeat

record timer =
  tid :: nat
  due :: nat
  callback :: timer_callback

record app_state =
  \<comment> \<open>React state of \<open>App\<close>\<close>
  transcription :: string
  interimTranscript :: string
  connectionStatus :: connection_status
  error :: "string option"
  \<comment> \<open>ref cells of \<open>App\<close>\<close>
  connectionRef :: "nat option"
  audioBufferRef :: "blob list"
  closeTimeoutRef :: "nat option"
  keepAliveIntervalRef :: "nat option"
  \<comment> \<open>state and ref of \<open>useMicrophone\<close>\<close>
  stream :: "nat option"
  recorder :: "nat option"
  isRecording :: bool
  mediaStreamRef :: "nat option"
  \<comment> \<open>the environment: configuration, object stores, timers, suspended calls\<close>
  api_key :: "string option"
  supported_types :: "string list"
  conns :: "nat \<rightharpoonup> live_conn"
  next_conn :: nat
  recorders :: "nat \<rightharpoonup> media_recorder"
  next_recorder :: nat
  tracks_live :: "nat \<rightharpoonup> bool"
  next_stream :: nat
  clock :: nat
  timers :: "timer list"
  next_timer :: nat
  pending_mic :: "connection_status list"
  sdk_calls :: "sdk_call list"

text \<open>
  The state at mount. Timer ids start at 1, as in a browser, so that a stored id is
  truthy; connections start in ready state 0 (connecting).
\<close>

definition init :: "string option \<Rightarrow> string list \<Rightarrow> app_state" where
  "init key types =
     \<lparr> transcription = '''', interimTranscript = '''', connectionStatus = Offline,
       error = None, connectionRef = None, audioBufferRef = [], closeTimeoutRef = None,
       keepAliveIntervalRef = None, stream = None, recorder = None, isRecording = False,
       mediaStreamRef = None, api_key = key, supported_types = types,
       conns = Map.empty, next_conn = 0, recorders = Map.empty, next_recorder = 0,
       tracks_live = Map.empty, next_stream = 0, clock = 0, timers = [], next_timer = 1,
       pending_mic = [], sdk_calls = [] \<rparr>"

section \<open>Transcript handling\<close>

text \<open>
  \<open>String.prototype.trim\<close> on text whose code units are below 256: tab, line feed,
  vertical tab, form feed, carriage return, space and no-break space are stripped from
  both ends.
\<close>

definition is_ws :: "char \<Rightarrow> bool" where
  "is_ws c = (c \<in> set [CHR 0x09, CHR 0x0A, CHR 0x0B, CHR 0x0C, CHR 0x0D, CHR 0x20, CHR 0xA0])"

definition trim :: "string \<Rightarrow> string" where
  "trim s = rev (dropWhile is_ws (rev (dropWhile is_ws s)))"

text \<open>
  \<open>data.channel?.alternatives[0]?.transcript\<close>: a missing channel short-circuits the
  whole chain to undefined; a channel without \<open>alternatives\<close> makes the index
  expression throw a TypeError; an empty array or a missing \<open>transcript\<close> gives
  undefined.
\<close>

definition get_transcript :: "results_data \<Rightarrow> js_error + string option" where
  "get_transcript d =
     (case channel d of
        None \<Rightarrow> Inr None
      | Some ch \<Rightarrow>
          (case alternatives ch of
             None \<Rightarrow> Inl (JsError (Some ''Cannot read properties of undefined''))
           | Some [] \<Rightarrow> Inr None
           | Some (a # _) \<Rightarrow> Inr (transcript a)))"

text \<open>Truthiness of a possibly undefined string: defined and not empty.\<close>

fun truthy :: "string option \<Rightarrow> bool" where
  "truthy None = False"
| "truthy (Some t) = (t \<noteq> [])"

definition handleResults :: "results_data \<Rightarrow> app_state \<Rightarrow> js_error + app_state" where
  "handleResults d s =
     (case get_transcript d of
        Inl e \<Rightarrow> Inl e
      | Inr tr \<Rightarrow>
          Inr (if truthy tr then
                 (if is_final d then
                    s\<lparr> transcription := trim (transcription s @ '' '' @ the tr),
                       interimTranscript := '''' \<rparr>
                  else s\<lparr> interimTranscript := the tr \<rparr>)
               else s))"

text \<open>
  The two kinds of transcript event, in the shape the SDK delivers them: one
  alternative carrying the text, and the \<open>is_final\<close> flag.
\<close>

definition final_event :: "string \<Rightarrow> results_data" where
  "final_event t = \<lparr> channel = Some (Channel (Some [Alternative (Some t)])), is_final = True \<rparr>"

definition interim_event :: "string \<Rightarrow> results_data" where
  "interim_event t = \<lparr> channel = Some (Channel (Some [Alternative (Some t)])), is_final = False \<rparr>"

definition clearTranscription :: "app_state \<Rightarrow> app_state" where
  "clearTranscription s = s\<lparr> transcription := '''', interimTranscript := '''' \<rparr>"

section \<open>Timers and the heartbeat\<close>

definition clear_timer :: "nat \<Rightarrow> timer list \<Rightarrow> timer list" where
  "clear_timer i ts = filter (\<lambda>t. tid t \<noteq> i) ts"

definition stopKeepAlive :: "app_state \<Rightarrow> app_state" where
  "stopKeepAlive s =
     (case keepAliveIntervalRef s of
        None \<Rightarrow> s
      | Some i \<Rightarrow> s\<lparr> timers := clear_timer i (timers s), keepAliveIntervalRef := None \<rparr>)"

definition conn_ready :: "nat \<Rightarrow> app_state \<Rightarrow> bool" where
  "conn_ready c s = (case conns s c of None \<Rightarrow> False | Some k \<Rightarrow> readyState k = 1)"

text \<open>The interval callback: a pulse only if the current connection reports ready.\<close>

definition heartbeat :: "app_state \<Rightarrow> app_state" where
  "heartbeat s =
     (case connectionRef s of
        None \<Rightarrow> s
      | Some c \<Rightarrow>
          if conn_ready c s then s\<lparr> sdk_calls := sdk_calls s @ [KeepAlive c] \<rparr> else s)"

definition startKeepAlive :: "app_state \<Rightarrow> app_state" where
  "startKeepAlive s =
     (let s1 = stopKeepAlive s; i = next_timer s1 in
      s1\<lparr> timers := timers s1 @ [\<lparr> tid = i, due = clock s1 + 5000, callback = Heartbeat \<rparr>],
          next_timer := i + 1,
          keepAliveIntervalRef := Some i \<rparr>)"

definition closeConnection :: "app_state \<Rightarrow> app_state" where
  "closeConnection s =
     (let s1 = (case connectionRef s of
                  None \<Rightarrow> s
                | Some c \<Rightarrow> s\<lparr> sdk_calls := sdk_calls s @ [Finish c], connectionRef := None \<rparr>)
      in stopKeepAlive (s1\<lparr> connectionStatus := Offline \<rparr>))"

section \<open>The module lib/deepgram\<close>

definition getDeepgramClient :: "app_state \<Rightarrow> js_error + string" where
  "getDeepgramClient s =
     (if truthy (api_key s) then Inr (the (api_key s))
      else Inl (JsError (Some ''Missing VITE_DEEPGRAM_API_KEY'')))"

text \<open>
  The SDK's \<open>listen.live\<close>: a new connection object, created with whatever options
  the caller passes, not yet open.
\<close>

definition listen_live :: "string \<Rightarrow> live_options \<Rightarrow> app_state \<Rightarrow> nat \<times> app_state" where
  "listen_live dg opts s =
     (let c = next_conn s in
      (c, s\<lparr> conns := (conns s)(c \<mapsto> \<lparr> options = opts, readyState = 0, waiter = None \<rparr>),
             next_conn := c + 1,
             sdk_calls := sdk_calls s @ [ListenLive c opts] \<rparr>))"

definition createTranscriptionConnection :: "string \<Rightarrow> app_state \<Rightarrow> nat \<times> app_state" where
  "createTranscriptionConnection dg s =
     listen_live dg \<lparr> model = ''nova'', language = ''en-US'', smart_format = True \<rparr> s"

section \<open>The hook useMicrophone\<close>

definition mimeTypes :: "string list" where
  "mimeTypes = [''audio/webm;codecs=opus'', ''audio/webm'', ''audio/ogg;codecs=opus'',
                ''audio/mp4'', ''audio/wav'']"

definition supportedType :: "app_state \<Rightarrow> string" where
  "supportedType s =
     (case find (\<lambda>t. t \<in> set (supported_types s)) mimeTypes of None \<Rightarrow> '''' | Some t \<Rightarrow> t)"

text \<open>
  \<open>startMicrophone\<close> once \<open>getUserMedia\<close> has resolved with a new stream: a new
  recorder on that stream, both stored. Nothing here looks at \<open>isRecording\<close> or at the
  recorder already stored.
\<close>

definition startMicrophone :: "app_state \<Rightarrow> nat \<times> app_state" where
  "startMicrophone s =
     (let userStream = next_stream s; mediaRecorder = next_recorder s in
      (mediaRecorder,
       s\<lparr> tracks_live := (tracks_live s)(userStream \<mapsto> True),
          next_stream := userStream + 1,
          recorders := (recorders s)(mediaRecorder \<mapsto>
             \<lparr> rstream = userStream, mimeType = supportedType s, rstate = Inactive,
               timeslice = None, ondataavailable_set = False \<rparr>),
          next_recorder := mediaRecorder + 1,
          mediaStreamRef := Some userStream,
          stream := Some userStream,
          recorder := Some mediaRecorder,
          isRecording := True \<rparr>))"

definition recorder_stop :: "nat \<Rightarrow> app_state \<Rightarrow> app_state" where
  "recorder_stop r s =
     (case recorders s r of
        None \<Rightarrow> s
      | Some m \<Rightarrow>
          if rstate m \<noteq> Inactive
          then s\<lparr> recorders := (recorders s)(r \<mapsto> m\<lparr> rstate := Inactive \<rparr>) \<rparr>
          else s)"

definition stopMicrophone :: "app_state \<Rightarrow> app_state" where
  "stopMicrophone s =
     (let s1 = (case recorder s of None \<Rightarrow> s | Some r \<Rightarrow> recorder_stop r s);
          s2 = (case mediaStreamRef s1 of
                  None \<Rightarrow> s1
                | Some m \<Rightarrow> s1\<lparr> tracks_live := (tracks_live s1)(m \<mapsto> False) \<rparr>)
      in s2\<lparr> stream := None, recorder := None, isRecording := False \<rparr>)"

section \<open>Opening a connection\<close>

text \<open>
  \<open>ondataavailable\<close> is assigned and \<open>mediaRecorder.start(200)\<close> called: the end of
  \<open>handleStart\<close>, reached once the connection is there.
\<close>

definition start_recording :: "nat \<Rightarrow> app_state \<Rightarrow> app_state" where
  "start_recording r s =
     (case recorders s r of
        None \<Rightarrow> s
      | Some m \<Rightarrow>
          s\<lparr> recorders := (recorders s)(r \<mapsto>
                m\<lparr> ondataavailable_set := True, rstate := Recording, timeslice := Some 200 \<rparr>) \<rparr>)"

text \<open>The \<open>catch\<close> block of \<open>handleStart\<close>.\<close>

definition handleStart_catch :: "js_error \<Rightarrow> app_state \<Rightarrow> app_state" where
  "handleStart_catch e s =
     s\<lparr> error := Some (if truthy (message e) then the (message e) else ''Failed to start''),
        connectionStatus := Offline \<rparr>"

text \<open>
  The promise of \<open>initConnection\<close>, for the connection \<open>c\<close> it was made for: settling
  it resumes the suspended \<open>handleStart\<close>, if one still waits; settling it again does
  nothing.
\<close>

definition resolve :: "nat \<Rightarrow> app_state \<Rightarrow> app_state" where
  "resolve c s =
     (case conns s c of
        None \<Rightarrow> s
      | Some k \<Rightarrow>
          (case waiter k of
             None \<Rightarrow> s
           | Some r \<Rightarrow> start_recording r (s\<lparr> conns := (conns s)(c \<mapsto> k\<lparr> waiter := None \<rparr>) \<rparr>)))"

definition reject :: "nat \<Rightarrow> js_error \<Rightarrow> app_state \<Rightarrow> app_state" where
  "reject c e s =
     (case conns s c of
        None \<Rightarrow> s
      | Some k \<Rightarrow>
          (case waiter k of
             None \<Rightarrow> s
           | Some r \<Rightarrow> handleStart_catch e (s\<lparr> conns := (conns s)(c \<mapsto> k\<lparr> waiter := None \<rparr>) \<rparr>)))"

text \<open>The four handlers \<open>initConnection\<close> registers on the connection it creates.\<close>

definition on_open :: "nat \<Rightarrow> app_state \<Rightarrow> app_state" where
  "on_open c s = resolve c (startKeepAlive (s\<lparr> connectionStatus := Online \<rparr>))"

definition on_results :: "results_data \<Rightarrow> app_state \<Rightarrow> app_state" where
  "on_results d s = (case handleResults d s of Inl e \<Rightarrow> s | Inr s' \<Rightarrow> s')"

definition on_error :: "nat \<Rightarrow> js_error \<Rightarrow> app_state \<Rightarrow> app_state" where
  "on_error c e s =
     reject c e (s\<lparr> error := Some ''AI Connection Error'', connectionStatus := Error \<rparr>)"

definition on_close :: "app_state \<Rightarrow> app_state" where
  "on_close s = stopKeepAlive (s\<lparr> connectionStatus := Offline \<rparr>)"

text \<open>
  \<open>initConnection\<close> up to the point where it returns its promise. \<open>cs\<close> is the
  \<open>connectionStatus\<close> the callback closed over. The promise is already resolved
  (early return), already rejected (the client could not be made), or pending on the
  new connection's \<open>open\<close> or \<open>error\<close> event.
\<close>

datatype init_result = Resolved nat | Rejected js_error | Pending nat

definition initConnection :: "connection_status \<Rightarrow> app_state \<Rightarrow> init_result \<times> app_state" where
  "initConnection cs s =
     (if connectionRef s \<noteq> None \<and> cs = Online then (Resolved (the (connectionRef s)), s)
      else
        (let s1 = s\<lparr> connectionStatus := Connecting, error := None \<rparr> in
         case getDeepgramClient s1 of
           Inl e \<Rightarrow> (Rejected e, s1\<lparr> connectionStatus := Error, error := message e \<rparr>)
         | Inr dg \<Rightarrow>
             (let (c, s2) = createTranscriptionConnection dg s1
              in (Pending c, s2\<lparr> connectionRef := Some c \<rparr>))))"

section \<open>Audio chunks\<close>

text \<open>\<open>connection.send(chunk)\<close>, recorded in the trace.\<close>

definition sdk_send :: "nat \<Rightarrow> blob \<Rightarrow> app_state \<Rightarrow> app_state" where
  "sdk_send c b s = s\<lparr> sdk_calls := sdk_calls s @ [Send c b] \<rparr>"

text \<open>
  The \<open>while\<close> loop of the chunk handler: \<open>shift()\<close> takes the oldest chunk off the
  buffer, \<open>send\<close> passes it on, until the buffer is empty. The buffer holds Blob
  objects only, so the test \<open>if (chunk)\<close> passes for each of them.
\<close>

function flush_buffer :: "nat \<Rightarrow> app_state \<Rightarrow> app_state" where
  "flush_buffer c s =
     (if length (audioBufferRef s) > 0
      then flush_buffer c (sdk_send c (hd (audioBufferRef s))
                             (s\<lparr> audioBufferRef := tl (audioBufferRef s) \<rparr>))
      else s)"
  by pat_completeness auto
termination
  by (relation "measure (\<lambda>(c, s). length (audioBufferRef s))") (auto simp: sdk_send_def)

declare flush_buffer.simps [simp del]

definition ondataavailable :: "blob \<Rightarrow> app_state \<Rightarrow> app_state" where
  "ondataavailable b s =
     (if blob_size b > 0 then
        (case connectionRef s of
           None \<Rightarrow> s\<lparr> audioBufferRef := audioBufferRef s @ [b] \<rparr>
         | Some c \<Rightarrow>
             if conn_ready c s then sdk_send c b (flush_buffer c s)
             else s\<lparr> audioBufferRef := audioBufferRef s @ [b] \<rparr>)
      else s)"

section \<open>Start, stop, teardown\<close>

text \<open>
  \<open>handleStart\<close> up to its first \<open>await\<close>: the call is then suspended on
  \<open>getUserMedia\<close>, remembered together with the \<open>connectionStatus\<close> its closure
  holds.
\<close>

definition handleStart :: "app_state \<Rightarrow> app_state" where
  "handleStart s =
     (let s1 = (case closeTimeoutRef s of
                  None \<Rightarrow> s
                | Some i \<Rightarrow> s\<lparr> timers := clear_timer i (timers s), closeTimeoutRef := None \<rparr>)
      in s1\<lparr> error := None, interimTranscript := '''', audioBufferRef := [],
              pending_mic := pending_mic s1 @ [connectionStatus s] \<rparr>)"

text \<open>
  \<open>getUserMedia\<close> resolves for the oldest suspended \<open>handleStart\<close>, which runs on:
  \<open>startMicrophone\<close> finishes, the connection is looked at, and either recording
  starts at once or the call is suspended again on the promise of \<open>initConnection\<close>.
\<close>

definition mic_granted :: "app_state \<Rightarrow> app_state" where
  "mic_granted s =
     (case pending_mic s of
        [] \<Rightarrow> s
      | cs # rest \<Rightarrow>
          (let (mediaRecorder, s1) = startMicrophone (s\<lparr> pending_mic := rest \<rparr>) in
           if (case connectionRef s1 of None \<Rightarrow> True | Some c \<Rightarrow> \<not> conn_ready c s1) then
             (case initConnection cs s1 of
                (Resolved c, s2) \<Rightarrow> start_recording mediaRecorder s2
              | (Rejected e, s2) \<Rightarrow> handleStart_catch e s2
              | (Pending c, s2) \<Rightarrow>
                  (case conns s2 c of
                     None \<Rightarrow> s2
                   | Some k \<Rightarrow> s2\<lparr> conns := (conns s2)(c \<mapsto> k\<lparr> waiter := Some mediaRecorder \<rparr>) \<rparr>))
           else start_recording mediaRecorder s1))"

text \<open>\<open>getUserMedia\<close> rejects: \<open>startMicrophone\<close> rethrows into the \<open>catch\<close> block.\<close>

definition mic_denied :: "js_error \<Rightarrow> app_state \<Rightarrow> app_state" where
  "mic_denied e s =
     (case pending_mic s of
        [] \<Rightarrow> s
      | cs # rest \<Rightarrow> handleStart_catch e (s\<lparr> pending_mic := rest \<rparr>))"

definition handleStop :: "app_state \<Rightarrow> app_state" where
  "handleStop s =
     (let s1 = (stopMicrophone s)\<lparr> interimTranscript := '''' \<rparr>;
          s2 = (case closeTimeoutRef s1 of
                  None \<Rightarrow> s1
                | Some i \<Rightarrow> s1\<lparr> timers := clear_timer i (timers s1) \<rparr>);
          i = next_timer s2
      in s2\<lparr> timers := timers s2 @ [\<lparr> tid = i, due = clock s2 + 60000, callback = GraceClose \<rparr>],
             next_timer := i + 1,
             closeTimeoutRef := Some i \<rparr>)"

text \<open>The cleanup function of the mount effect.\<close>

definition teardown :: "app_state \<Rightarrow> app_state" where
  "teardown s =
     (let s1 = (case closeTimeoutRef s of
                  None \<Rightarrow> s
                | Some i \<Rightarrow> s\<lparr> timers := clear_timer i (timers s) \<rparr>);
          s2 = stopKeepAlive s1
      in case connectionRef s2 of
           None \<Rightarrow> s2
         | Some c \<Rightarrow> s2\<lparr> sdk_calls := sdk_calls s2 @ [Finish c] \<rparr>)"

section \<open>The event loop\<close>

text \<open>
  The table lists the pending timers in the order in which they were armed. An interval
  that fires is armed again, 5000 ms on, and so moves behind the timers armed before.
\<close>

definition rearm :: "nat \<Rightarrow> timer list \<Rightarrow> timer list" where
  "rearm i ts =
     clear_timer i ts @ map (\<lambda>u. u\<lparr> due := due u + 5000 \<rparr>) (filter (\<lambda>u. tid u = i) ts)"

text \<open>
  A due timer runs its callback if it is still pending when its turn comes: a timeout
  is removed from the table, an interval is armed again.
\<close>

definition fire :: "timer \<Rightarrow> app_state \<Rightarrow> app_state" where
  "fire t s =
     (if tid t \<in> set (map tid (timers s)) then
        (case callback t of
           GraceClose \<Rightarrow> closeConnection (s\<lparr> timers := clear_timer (tid t) (timers s) \<rparr>)
         | Heartbeat \<Rightarrow> heartbeat (s\<lparr> timers := rearm (tid t) (timers s) \<rparr>))
      else s)"

text \<open>
  One millisecond passes; the timers due at the new time fire in the order in which they
  were armed.
\<close>

definition tick :: "app_state \<Rightarrow> app_state" where
  "tick s =
     (let s1 = s\<lparr> clock := clock s + 1 \<rparr>
      in fold fire (filter (\<lambda>t. due t = clock s1) (timers s1)) s1)"

definition set_ready_state :: "nat \<Rightarrow> nat \<Rightarrow> app_state \<Rightarrow> app_state" where
  "set_ready_state c n s =
     (case conns s c of
        None \<Rightarrow> s
      | Some k \<Rightarrow> s\<lparr> conns := (conns s)(c \<mapsto> k\<lparr> readyState := n \<rparr>) \<rparr>)"

text \<open>
  What can happen to the mounted component: the user presses or releases the button or
  clears the text, the browser answers a microphone request, a connection fires an
  event (an \<open>open\<close> event finds it in ready state 1, a \<open>close\<close> event in ready state
  3) or changes its ready state silently, a recorder delivers a chunk, time passes,
  the component unmounts. The handler of transcript messages is registered under three
  event names; a message reaches it once. Rendering and the clipboard are left out.
\<close>

datatype event =
    HandleStart
  | HandleStop
  | ClearTranscription
  | MicGranted
  | MicDenied js_error
  | ConnOpen nat
  | ConnResults nat results_data
  | ConnError nat js_error
  | ConnClose nat
  | SocketState nat nat
  | DataAvailable nat blob
  | Tick
  | Teardown

fun step :: "event \<Rightarrow> app_state \<Rightarrow> app_state" where
  "step HandleStart s = handleStart s"
| "step HandleStop s = handleStop s"
| "step ClearTranscription s = clearTranscription s"
| "step MicGranted s = mic_granted s"
| "step (MicDenied e) s = mic_denied e s"
| "step (ConnOpen c) s =
     (if conns s c = None then s else on_open c (set_ready_state c 1 s))"
| "step (ConnResults c d) s =
     (if conns s c = None then s else on_results d s)"
| "step (ConnError c e) s =
     (if conns s c = None then s else on_error c e s)"
| "step (ConnClose c) s =
     (if conns s c = None then s else on_close (set_ready_state c 3 s))"
| "step (SocketState c n) s = set_ready_state c n s"
| "step (DataAvailable r b) s =
     (case recorders s r of
        None \<Rightarrow> s
      | Some m \<Rightarrow> if ondataavailable_set m then ondataavailable b s else s)"
| "step Tick s = tick s"
| "step Teardown s = teardown s"

definition run :: "event list \<Rightarrow> app_state \<Rightarrow> app_state" where
  "run es s = fold step es s"

section \<open>Reference states\<close>

text \<open>
  The component after one complete start with a key configured: the button was pressed,
  the microphone granted, the connection opened; capture is active and the connection
  online.
\<close>

definition capturing :: app_state where
  "capturing = run [HandleStart, MicGranted, ConnOpen 0] (init (Some ''key'') [])"

text \<open>
  The component after two presses in quick succession, both answered before any
  connection opened: the first start waits for connection 0, the second has replaced
  it in \<open>connectionRef\<close> by connection 1; connection 0 has opened since, so recorder 0
  is recording while the connection the chunk handler looks at is still connecting.
\<close>

definition second_connecting :: app_state where
  "second_connecting =
     run [HandleStart, HandleStop, HandleStart, MicGranted, MicGranted, ConnOpen 0]
       (init (Some ''key'') [])"

section \<open>Predicates on states, calls and events\<close>

text \<open>
  The test of the chunk handler, \<open>connectionRef.current?.getReadyState() === 1\<close>: a
  handle is held and its connection reports ready.
\<close>

definition online :: "app_state \<Rightarrow> bool" where
  "online s = (case connectionRef s of None \<Rightarrow> False | Some c \<Rightarrow> conn_ready c s)"

text \<open>
  Recorder \<open>r\<close> has the chunk handler of \<open>handleStart\<close> assigned, and \<open>c\<close> is the
  connection the handler will look at.
\<close>

definition listening :: "nat \<Rightarrow> nat \<Rightarrow> app_state \<Rightarrow> bool" where
  "listening r c s =
     (connectionRef s = Some c \<and>
      (case recorders s r of None \<Rightarrow> False | Some m \<Rightarrow> ondataavailable_set m))"

text \<open>A call that creates a connection does so with the options of \<open>lib/deepgram\<close>.\<close>

fun fixed_options_call :: "sdk_call \<Rightarrow> bool" where
  "fixed_options_call (ListenLive c opts) =
     (opts = \<lparr> model = ''nova'', language = ''en-US'', smart_format = True \<rparr>)"
| "fixed_options_call (Send c b) = True"
| "fixed_options_call (KeepAlive c) = True"
| "fixed_options_call (Finish c) = True"

text \<open>The number of \<open>finish\<close> calls made so far, on any connection.\<close>

fun is_finish :: "sdk_call \<Rightarrow> bool" where
  "is_finish (Finish c) = True"
| "is_finish (ListenLive c opts) = False"
| "is_finish (Send c b) = False"
| "is_finish (KeepAlive c) = False"

definition finish_calls :: "app_state \<Rightarrow> nat" where
  "finish_calls s = length (filter is_finish (sdk_calls s))"

text \<open>
  The events during which the user leaves the button alone and the component stays
  mounted: everything but a press, a release and the unmount.
\<close>

fun quiet :: "event \<Rightarrow> bool" where
  "quiet HandleStart = False"
| "quiet HandleStop = False"
| "quiet Teardown = False"
| "quiet e = True"

text \<open>The milliseconds that pass during a list of events.\<close>

fun is_tick :: "event \<Rightarrow> bool" where
  "is_tick Tick = True"
| "is_tick e = False"

definition ticks :: "event list \<Rightarrow> nat" where
  "ticks es = length (filter is_tick es)"

text \<open>
  The timer table is well formed when every pending timer is the one its ref cell
  holds (a grace-period timeout the one in \<open>closeTimeoutRef\<close>, a heartbeat interval the
  one in \<open>keepAliveIntervalRef\<close>), the ids in the two cells have been handed out
  already, and the two cells hold different ids.
\<close>

definition owned :: "nat option \<Rightarrow> nat option \<Rightarrow> timer \<Rightarrow> bool" where
  "owned ct ka t =
     (case callback t of
        GraceClose \<Rightarrow> ct = Some (tid t)
      | Heartbeat \<Rightarrow> ka = Some (tid t))"

definition timer_table_wf :: "timer list \<Rightarrow> nat option \<Rightarrow> nat option \<Rightarrow> nat \<Rightarrow> bool" where
  "timer_table_wf ts ct ka n =
     (list_all (owned ct ka) ts
      \<and> (case ct of None \<Rightarrow> True | Some i \<Rightarrow> i < n)
      \<and> (case ka of None \<Rightarrow> True | Some i \<Rightarrow> i < n \<and> ct \<noteq> Some i))"

definition timers_wf :: "app_state \<Rightarrow> bool" where
  "timers_wf s =
     timer_table_wf (timers s) (closeTimeoutRef s) (keepAliveIntervalRef s) (next_timer s)"

text \<open>
  During the grace period: the timeout held in \<open>closeTimeoutRef\<close> is pending and due
  at \<open>D\<close>, as is every pending timeout, and a connection handle is held.
\<close>

definition grace_armed :: "nat \<Rightarrow> app_state \<Rightarrow> bool" where
  "grace_armed D s =
     (timers_wf s
      \<and> (case closeTimeoutRef s of
            None \<Rightarrow> False
          | Some g \<Rightarrow> \<lparr> tid = g, due = D, callback = GraceClose \<rparr> \<in> set (timers s))
      \<and> list_all (\<lambda>t. case callback t of GraceClose \<Rightarrow> due t = D | Heartbeat \<Rightarrow> True) (timers s)
      \<and> connectionRef s \<noteq> None)"

text \<open>
  Right after the grace period ran out, \<open>F\<close> being the number of \<open>finish\<close> calls
  before it.
\<close>

definition closed_after :: "nat \<Rightarrow> app_state \<Rightarrow> bool" where
  "closed_after F s =
     (finish_calls s = F + 1 \<and> connectionStatus s = Offline \<and> keepAliveIntervalRef s = None
      \<and> connectionRef s = None \<and> timers s = [])"

text \<open>No grace-period timeout is pending.\<close>

definition no_grace :: "app_state \<Rightarrow> bool" where
  "no_grace s = list_all (\<lambda>t. callback t = Heartbeat) (timers s)"

section \<open>Transcript events\<close>

text \<open>
  C4, as the code has it. A final event whose text is empty fails the guard
  \<open>if (transcript)\<close>, so \<open>handleResults\<close> changes nothing at all: the committed
  transcript is unchanged, and so is the interim transcript.
\<close>

theorem final_empty_text_is_ignored:
  "handleResults (final_event '''') s = Inr s"
  by (simp add: handleResults_def final_event_def get_transcript_def)

text \<open>
  C4 as stated fails: after the interim text \<open>ab\<close>, an empty final event leaves the
  interim transcript at \<open>ab\<close> instead of clearing it.
\<close>

theorem final_empty_keeps_interim_counterexample:
  "interimTranscript
     (on_results (final_event '''') (on_results (interim_event ''ab'') (init None []))) = ''ab''"
  by (simp add: on_results_def handleResults_def final_event_def interim_event_def
      get_transcript_def init_def)

text \<open>
  C5, as the code has it. An interim event replaces the interim transcript with its
  text when that text is not empty and leaves the committed transcript as it is; an
  interim event with empty text fails the guard and changes nothing.
\<close>

theorem interim_event_effect:
  "handleResults (interim_event t) s =
     Inr (if t = [] then s else s\<lparr> interimTranscript := t \<rparr>)"
  by (simp add: handleResults_def interim_event_def get_transcript_def)

text \<open>
  C5 as stated fails: after the interim text \<open>ab\<close>, an empty interim event does not
  clear the displayed partial text.
\<close>

theorem interim_empty_keeps_interim_counterexample:
  "interimTranscript
     (on_results (interim_event '''') (on_results (interim_event ''ab'') (init None []))) = ''ab''"
  by (simp add: on_results_def handleResults_def interim_event_def get_transcript_def init_def)

text \<open>
  C9. From a cleared transcript, the events interim \<open>a\<close>, interim \<open>ab\<close>, final
  \<open>abc\<close> give the committed transcript \<open>abc\<close> and an empty interim transcript, and a
  further empty interim event leaves the committed transcript unchanged.
\<close>

theorem transcript_merge_law:
  "transcription (fold on_results
       [interim_event ''a'', interim_event ''ab'', final_event ''abc'']
       (clearTranscription s)) = ''abc''
   \<and> interimTranscript (fold on_results
       [interim_event ''a'', interim_event ''ab'', final_event ''abc'']
       (clearTranscription s)) = ''''
   \<and> transcription (on_results (interim_event '''') (fold on_results
       [interim_event ''a'', interim_event ''ab'', final_event ''abc'']
       (clearTranscription s))) = ''abc''"
  by (simp add: on_results_def handleResults_def final_event_def interim_event_def
      get_transcript_def clearTranscription_def trim_def is_ws_def)

section \<open>Evaluating the model\<close>

lemmas model_defs =
  init_def handleStart_def mic_granted_def startMicrophone_def supportedType_def mimeTypes_def
  conn_ready_def initConnection_def getDeepgramClient_def createTranscriptionConnection_def
  listen_live_def on_open_def set_ready_state_def startKeepAlive_def stopKeepAlive_def
  resolve_def start_recording_def ondataavailable_def blob_size_def on_error_def reject_def
  handleStop_def stopMicrophone_def recorder_stop_def clear_timer_def sdk_send_def
  handleStart_catch_def on_close_def teardown_def closeConnection_def flush_buffer.simps

section \<open>Buffered chunks across an error\<close>

text \<open>
  C1, as the code has it. An error event leaves the buffered chunks where they are and
  sends nothing; the next start empties the buffer before anything else and sends
  nothing either, so chunks buffered before the error are discarded, not sent on the
  reopened connection.
\<close>

theorem error_keeps_buffer_start_clears_it:
  "audioBufferRef (step (ConnError c e) s) = audioBufferRef s
   \<and> sdk_calls (step (ConnError c e) s) = sdk_calls s
   \<and> audioBufferRef (step HandleStart s') = []
   \<and> sdk_calls (step HandleStart s') = sdk_calls s'"
  by (simp add: on_error_def reject_def handleStart_catch_def handleStart_def Let_def
      split: option.splits)

text \<open>
  C1 as stated fails. The connection opens and then drops, two chunks are buffered, the
  error event fires: the buffer still holds both. The button is released and pressed
  again, a second connection opens, a third chunk arrives: the only chunk ever sent is
  the third.
\<close>

theorem buffered_chunks_dropped_counterexample:
  "audioBufferRef (run [HandleStart, MicGranted, ConnOpen 0, SocketState 0 3,
       DataAvailable 0 (Blob [1]), DataAvailable 0 (Blob [2]), ConnError 0 (JsError None)]
       (init (Some ''key'') [])) = [Blob [1], Blob [2]]
   \<and> sdk_calls (run [HandleStart, MicGranted, ConnOpen 0, SocketState 0 3,
       DataAvailable 0 (Blob [1]), DataAvailable 0 (Blob [2]), ConnError 0 (JsError None),
       HandleStop, HandleStart, MicGranted, ConnOpen 1, DataAvailable 1 (Blob [3])]
       (init (Some ''key'') [])) =
     [ListenLive 0 \<lparr>model = ''nova'', language = ''en-US'', smart_format = True\<rparr>,
      ListenLive 1 \<lparr>model = ''nova'', language = ''en-US'', smart_format = True\<rparr>,
      Send 1 (Blob [3])]"
  by (simp add: run_def model_defs Let_def)

section \<open>Starting while capture is active\<close>

lemma mic_granted_capture:
  assumes "pending_mic s \<noteq> []"
  shows "next_recorder (mic_granted s) = next_recorder s + 1
   \<and> next_stream (mic_granted s) = next_stream s + 1
   \<and> recorder (mic_granted s) = Some (next_recorder s)
   \<and> isRecording (mic_granted s)"
  using assms
  by (cases "pending_mic s")
     (auto simp add: mic_granted_def startMicrophone_def initConnection_def getDeepgramClient_def
      createTranscriptionConnection_def listen_live_def start_recording_def handleStart_catch_def
      Let_def split: option.splits prod.splits init_result.splits if_splits sum.splits)

lemma mic_granted_other_recorders:
  assumes "r \<noteq> next_recorder s"
  shows "recorders (mic_granted s) r = recorders s r"
  using assms
  by (cases "pending_mic s")
     (auto simp add: mic_granted_def startMicrophone_def initConnection_def getDeepgramClient_def
      createTranscriptionConnection_def listen_live_def start_recording_def handleStart_catch_def
      Let_def split: option.splits prod.splits init_result.splits if_splits sum.splits)

lemma handleStart_fields:
  "pending_mic (handleStart s) \<noteq> [] \<and> next_recorder (handleStart s) = next_recorder s
   \<and> next_stream (handleStart s) = next_stream s \<and> recorders (handleStart s) = recorders s"
  by (simp add: handleStart_def Let_def split: option.splits)

text \<open>
  C3, as the code has it. A start is never idempotent: whatever the state, once the
  microphone request is granted the call has made a new stream and a new recorder and
  stored the new recorder as the current one, and every recorder that existed before
  is left exactly as it was (an active one keeps recording).
\<close>

theorem every_start_makes_a_new_capture:
  assumes "r \<noteq> next_recorder s"
  shows "next_recorder (mic_granted (handleStart s)) = next_recorder s + 1
   \<and> next_stream (mic_granted (handleStart s)) = next_stream s + 1
   \<and> recorder (mic_granted (handleStart s)) = Some (next_recorder s)
   \<and> isRecording (mic_granted (handleStart s))
   \<and> recorders (mic_granted (handleStart s)) r = recorders s r"
  using mic_granted_capture [of "handleStart s"] mic_granted_other_recorders [of r "handleStart s"]
    handleStart_fields [of s] assms
  by simp

theorem every_start_makes_a_new_capture_witness:
  "0 \<noteq> next_recorder capturing
   \<and> next_recorder (mic_granted (handleStart capturing)) = next_recorder capturing + 1
   \<and> next_stream (mic_granted (handleStart capturing)) = next_stream capturing + 1
   \<and> recorder (mic_granted (handleStart capturing)) = Some (next_recorder capturing)
   \<and> isRecording (mic_granted (handleStart capturing))
   \<and> recorders (mic_granted (handleStart capturing)) 0 = recorders capturing 0"
proof -
  have h: "0 \<noteq> next_recorder capturing"
    by (simp add: capturing_def run_def model_defs Let_def)
  from every_start_makes_a_new_capture [OF h] h show ?thesis
    by blast
qed

text \<open>
  C3 as stated fails. After one start, capture is active on recorder 0; a second start
  makes recorder 1 the current one, and both recorders are recording.
\<close>

theorem second_start_second_capture_counterexample:
  "recorder (run [HandleStart, MicGranted, ConnOpen 0] (init (Some ''key'') [])) = Some 0
   \<and> isRecording (run [HandleStart, MicGranted, ConnOpen 0] (init (Some ''key'') []))
   \<and> recorder (run [HandleStart, MicGranted, ConnOpen 0, HandleStart, MicGranted]
        (init (Some ''key'') [])) = Some 1
   \<and> map_option rstate (recorders (run [HandleStart, MicGranted, ConnOpen 0, HandleStart, MicGranted]
        (init (Some ''key'') [])) 0) = Some Recording
   \<and> map_option rstate (recorders (run [HandleStart, MicGranted, ConnOpen 0, HandleStart, MicGranted]
        (init (Some ''key'') [])) 1) = Some Recording"
  by (simp add: run_def model_defs Let_def)

section \<open>The error event\<close>

lemma error_event_changes_status_only:
  assumes "conns s c = Some k" and "waiter k = None"
  shows "step (ConnError c e) s =
           s\<lparr> error := Some ''AI Connection Error'', connectionStatus := Error \<rparr>"
  using assms by (simp add: on_error_def reject_def)

text \<open>
  C6, as the code has it. When an error event fires on a connection that no start is
  still waiting for (the connection had opened), the status becomes \<open>Error\<close> and the
  message \<open>AI Connection Error\<close> is recorded; the connection handle is kept, and so
  are the buffered chunks.
\<close>

theorem error_event_effect:
  assumes "conns s c = Some k" and "waiter k = None"
  shows "connectionStatus (step (ConnError c e) s) = Error
    \<and> error (step (ConnError c e) s) = Some ''AI Connection Error''
    \<and> connectionRef (step (ConnError c e) s) = connectionRef s
    \<and> audioBufferRef (step (ConnError c e) s) = audioBufferRef s"
  using assms by (simp add: on_error_def reject_def)

theorem error_event_effect_witness:
  "conns capturing 0 =
     Some \<lparr> options = \<lparr>model = ''nova'', language = ''en-US'', smart_format = True\<rparr>,
            readyState = 1, waiter = None \<rparr>
   \<and> connectionStatus (step (ConnError 0 (JsError None)) capturing) = Error
   \<and> error (step (ConnError 0 (JsError None)) capturing) = Some ''AI Connection Error''
   \<and> connectionRef (step (ConnError 0 (JsError None)) capturing) = connectionRef capturing
   \<and> audioBufferRef (step (ConnError 0 (JsError None)) capturing) = audioBufferRef capturing"
proof -
  have h: "conns capturing 0 =
     Some \<lparr> options = \<lparr>model = ''nova'', language = ''en-US'', smart_format = True\<rparr>,
            readyState = 1, waiter = None \<rparr>"
    by (simp add: capturing_def run_def model_defs Let_def)
  have w: "waiter \<lparr> options = \<lparr>model = ''nova'', language = ''en-US'', smart_format = True\<rparr>,
            readyState = 1, waiter = None \<rparr> = None"
    by simp
  from error_event_effect [OF h w, of "JsError None"] h show ?thesis
    by blast
qed

text \<open>
  While a start still waits for the connection to open, the rejected promise runs the
  failure path of that start right after the handler.
\<close>

lemma error_event_while_start_waits:
  assumes "conns s c = Some k" and "waiter k = Some r"
  shows "connectionStatus (step (ConnError c e) s) = Offline
    \<and> error (step (ConnError c e) s) =
        Some (if truthy (message e) then the (message e) else ''Failed to start'')
    \<and> connectionRef (step (ConnError c e) s) = connectionRef s
    \<and> keepAliveIntervalRef (step (ConnError c e) s) = keepAliveIntervalRef s"
  using assms by (simp add: on_error_def reject_def handleStart_catch_def)

text \<open>
  C6 as stated fails. After an error on the open connection the status is \<open>Error\<close> and
  the message is recorded, but the handle is still held and the heartbeat interval is
  still pending.
\<close>

theorem error_leaves_timer_and_handle_counterexample:
  "connectionStatus (run [HandleStart, MicGranted, ConnOpen 0, ConnError 0 (JsError None)]
       (init (Some ''key'') [])) = Error
   \<and> error (run [HandleStart, MicGranted, ConnOpen 0, ConnError 0 (JsError None)]
       (init (Some ''key'') [])) = Some ''AI Connection Error''
   \<and> connectionRef (run [HandleStart, MicGranted, ConnOpen 0, ConnError 0 (JsError None)]
       (init (Some ''key'') [])) = Some 0
   \<and> keepAliveIntervalRef (run [HandleStart, MicGranted, ConnOpen 0, ConnError 0 (JsError None)]
       (init (Some ''key'') [])) = Some 1
   \<and> timers (run [HandleStart, MicGranted, ConnOpen 0, ConnError 0 (JsError None)]
       (init (Some ''key'') [])) = [\<lparr> tid = 1, due = 5000, callback = Heartbeat \<rparr>]"
  by (simp add: run_def model_defs Let_def)

section \<open>Teardown\<close>

text \<open>
  C7, as the code has it. The cleanup of the mount effect removes the grace-period
  timer and the heartbeat timer from the pending timers, calls \<open>finish\<close> on the
  connection handle if one is held, and does not touch the microphone: recorders,
  tracks and the capture flag are as before.
\<close>

theorem teardown_effect:
  "timers (teardown s) =
     filter (\<lambda>t. Some (tid t) \<noteq> closeTimeoutRef s \<and> Some (tid t) \<noteq> keepAliveIntervalRef s)
       (timers s)
   \<and> keepAliveIntervalRef (teardown s) = None
   \<and> sdk_calls (teardown s) =
       sdk_calls s @ (case connectionRef s of None \<Rightarrow> [] | Some c \<Rightarrow> [Finish c])
   \<and> recorders (teardown s) = recorders s
   \<and> tracks_live (teardown s) = tracks_live s
   \<and> recorder (teardown s) = recorder s
   \<and> isRecording (teardown s) = isRecording s"
  by (auto simp add: teardown_def stopKeepAlive_def clear_timer_def Let_def conj_commute
      split: option.splits intro: filter_cong)

text \<open>
  C7 as stated fails. Teardown during active capture leaves the recorder recording and
  the track of its stream live.
\<close>

theorem teardown_keeps_capture_counterexample:
  "isRecording (run [HandleStart, MicGranted, ConnOpen 0, Teardown] (init (Some ''key'') []))
   \<and> recorder (run [HandleStart, MicGranted, ConnOpen 0, Teardown] (init (Some ''key'') [])) = Some 0
   \<and> map_option rstate (recorders (run [HandleStart, MicGranted, ConnOpen 0, Teardown]
        (init (Some ''key'') [])) 0) = Some Recording
   \<and> tracks_live (run [HandleStart, MicGranted, ConnOpen 0, Teardown] (init (Some ''key'') [])) 0
       = Some True"
  by (simp add: run_def model_defs Let_def)

section \<open>Chunk order\<close>

lemma flush_buffer_calls:
  "sdk_calls (flush_buffer c s) = sdk_calls s @ map (Send c) (audioBufferRef s)"
proof (induction c s rule: flush_buffer.induct)
  case (1 c s)
  show ?case
  proof (cases "audioBufferRef s")
    case Nil
    then show ?thesis by (subst flush_buffer.simps) simp
  next
    case (Cons b bs)
    then show ?thesis
      using 1 by (subst flush_buffer.simps) (simp add: sdk_send_def)
  qed
qed

lemma flush_buffer_rest:
  "audioBufferRef (flush_buffer c s) = [] \<and> connectionRef (flush_buffer c s) = connectionRef s
   \<and> conns (flush_buffer c s) = conns s \<and> recorders (flush_buffer c s) = recorders s"
proof (induction c s rule: flush_buffer.induct)
  case (1 c s)
  show ?case
  proof (cases "audioBufferRef s")
    case Nil
    then show ?thesis by (subst (1 2 3 4) flush_buffer.simps) simp
  next
    case (Cons b bs)
    then show ?thesis
      using 1 by (subst (1 2 3 4) flush_buffer.simps) (simp add: sdk_send_def)
  qed
qed

lemma ondataavailable_frame:
  "connectionRef (ondataavailable b s) = connectionRef s
   \<and> conns (ondataavailable b s) = conns s
   \<and> recorders (ondataavailable b s) = recorders s"
  by (simp add: ondataavailable_def sdk_send_def flush_buffer_rest split: option.splits)

lemma ondataavailable_total:
  assumes "connectionRef s = Some c"
  shows "sdk_calls (ondataavailable b s) @ map (Send c) (audioBufferRef (ondataavailable b s)) =
         sdk_calls s @ map (Send c) (audioBufferRef s @ (if blob_size b > 0 then [b] else []))"
  using assms
  by (simp add: ondataavailable_def sdk_send_def flush_buffer_rest flush_buffer_calls)

lemma ondataavailable_not_ready:
  assumes "connectionRef s = Some c" and "\<not> conn_ready c s"
  shows "sdk_calls (ondataavailable b s) = sdk_calls s"
  using assms by (simp add: ondataavailable_def)

lemma ondataavailable_ready:
  assumes "connectionRef s = Some c" and "conn_ready c s" and "blob_size b > 0"
  shows "audioBufferRef (ondataavailable b s) = []"
  using assms by (simp add: ondataavailable_def sdk_send_def flush_buffer_rest)

lemma chunk_step:
  assumes "listening r c s"
  shows "listening r c (step (DataAvailable r b) s)
    \<and> conns (step (DataAvailable r b) s) = conns s
    \<and> conn_ready c (step (DataAvailable r b) s) = conn_ready c s
    \<and> sdk_calls (step (DataAvailable r b) s) @ map (Send c) (audioBufferRef (step (DataAvailable r b) s))
        = sdk_calls s @ map (Send c) (audioBufferRef s @ filter (\<lambda>b. blob_size b > 0) [b])
    \<and> (\<not> conn_ready c s \<longrightarrow> sdk_calls (step (DataAvailable r b) s) = sdk_calls s)
    \<and> (conn_ready c s \<and> blob_size b > 0 \<longrightarrow> audioBufferRef (step (DataAvailable r b) s) = [])"
  using assms ondataavailable_frame [of b s] ondataavailable_total [of s c b]
    ondataavailable_not_ready [of s c b] ondataavailable_ready [of s c b]
  by (auto simp add: listening_def conn_ready_def split: option.splits)

lemma chunks_run:
  assumes "listening r c s"
  shows "listening r c (run (map (DataAvailable r) xs) s)
    \<and> conns (run (map (DataAvailable r) xs) s) = conns s
    \<and> conn_ready c (run (map (DataAvailable r) xs) s) = conn_ready c s
    \<and> sdk_calls (run (map (DataAvailable r) xs) s)
         @ map (Send c) (audioBufferRef (run (map (DataAvailable r) xs) s))
        = sdk_calls s @ map (Send c) (audioBufferRef s @ filter (\<lambda>b. blob_size b > 0) xs)
    \<and> (\<not> conn_ready c s \<longrightarrow> sdk_calls (run (map (DataAvailable r) xs) s) = sdk_calls s)"
  using assms
proof (induction xs arbitrary: s)
  case Nil
  then show ?case by (simp add: run_def)
next
  case (Cons x xs)
  let ?s1 = "step (DataAvailable r x) s"
  have run_eq: "run (map (DataAvailable r) (x # xs)) s = run (map (DataAvailable r) xs) ?s1"
    by (simp add: run_def)
  from chunk_step [OF Cons.prems, of x] have
    l1: "listening r c ?s1" and r1: "conn_ready c ?s1 = conn_ready c s"
    and k1: "conns ?s1 = conns s"
    and t1: "sdk_calls ?s1 @ map (Send c) (audioBufferRef ?s1)
        = sdk_calls s @ map (Send c) (audioBufferRef s @ filter (\<lambda>b. blob_size b > 0) [x])"
    and n1: "\<not> conn_ready c s \<longrightarrow> sdk_calls ?s1 = sdk_calls s"
    by blast+
  from Cons.IH [OF l1] have
    l2: "listening r c (run (map (DataAvailable r) xs) ?s1)"
    and k2: "conns (run (map (DataAvailable r) xs) ?s1) = conns ?s1"
    and r2: "conn_ready c (run (map (DataAvailable r) xs) ?s1) = conn_ready c ?s1"
    and t2: "sdk_calls (run (map (DataAvailable r) xs) ?s1)
         @ map (Send c) (audioBufferRef (run (map (DataAvailable r) xs) ?s1))
        = sdk_calls ?s1 @ map (Send c) (audioBufferRef ?s1 @ filter (\<lambda>b. blob_size b > 0) xs)"
    and n2: "\<not> conn_ready c ?s1 \<longrightarrow> sdk_calls (run (map (DataAvailable r) xs) ?s1) = sdk_calls ?s1"
    by blast+
  have "sdk_calls ?s1 @ map (Send c) (audioBufferRef ?s1 @ filter (\<lambda>b. blob_size b > 0) xs)
      = (sdk_calls ?s1 @ map (Send c) (audioBufferRef ?s1)) @ map (Send c) (filter (\<lambda>b. blob_size b > 0) xs)"
    by simp
  also have "\<dots> = sdk_calls s @ map (Send c) (audioBufferRef s @ filter (\<lambda>b. blob_size b > 0) (x # xs))"
    unfolding t1 by simp
  finally have t3: "sdk_calls ?s1 @ map (Send c) (audioBufferRef ?s1 @ filter (\<lambda>b. blob_size b > 0) xs)
      = sdk_calls s @ map (Send c) (audioBufferRef s @ filter (\<lambda>b. blob_size b > 0) (x # xs))" .
  show ?case
    unfolding run_eq using l2 r2 r1 k1 k2 t2 t3 n1 n2 by simp
qed

lemma chunks_run_ready_last:
  assumes "listening r c s" and "conn_ready c s" and "blob_size y > 0"
  shows "audioBufferRef (run (map (DataAvailable r) (xs @ [y])) s) = []"
proof -
  let ?s1 = "run (map (DataAvailable r) xs) s"
  have e: "run (map (DataAvailable r) (xs @ [y])) s = step (DataAvailable r y) ?s1"
    by (simp add: run_def)
  from chunks_run [OF assms(1), of xs] assms(2)
  have "listening r c ?s1" and "conn_ready c ?s1" by simp_all
  with chunk_step [of r c ?s1 y] assms(3) show ?thesis unfolding e by simp
qed

lemma open_keeps_listening:
  assumes "listening r c s" and "conns s c = Some k"
  shows "listening r c (step (ConnOpen c) s) \<and> conn_ready c (step (ConnOpen c) s)
     \<and> sdk_calls (step (ConnOpen c) s) = sdk_calls s
     \<and> audioBufferRef (step (ConnOpen c) s) = audioBufferRef s"
  using assms
  by (auto simp add: listening_def on_open_def set_ready_state_def startKeepAlive_def
      stopKeepAlive_def resolve_def start_recording_def conn_ready_def Let_def
      split: option.splits)


lemma empty_chunk_ignored:
  assumes "blob_size b = 0"
  shows "step (DataAvailable r b) s = s"
  using assms by (simp add: ondataavailable_def split: option.splits)

lemma chunks_run_ready_empties:
  assumes "listening r c s" and "conn_ready c s"
    and "filter (\<lambda>b. blob_size b > 0) ys \<noteq> []"
  shows "audioBufferRef (run (map (DataAvailable r) ys) s) = []"
  using assms(3)
proof (induction ys rule: rev_induct)
  case Nil
  then show ?case by simp
next
  case (snoc y ys)
  show ?case
  proof (cases "blob_size y > 0")
    case True
    with chunks_run_ready_last [OF assms(1) assms(2)] show ?thesis by simp
  next
    case False
    then have z: "blob_size y = 0" by simp
    have e: "run (map (DataAvailable r) (ys @ [y])) s = run (map (DataAvailable r) ys) s"
      by (simp add: run_def empty_chunk_ignored [OF z] del: step.simps)
    from snoc False show ?thesis unfolding e by simp
  qed
qed

lemma run_append: "run (es @ fs) s = run fs (run es s)"
  by (simp add: run_def)

lemma chunk_step_no_handle:
  assumes "connectionRef s = None"
    and "recorders s r = Some m" and "ondataavailable_set m"
  shows "connectionRef (step (DataAvailable r b) s) = None
    \<and> recorders (step (DataAvailable r b) s) = recorders s
    \<and> sdk_calls (step (DataAvailable r b) s) = sdk_calls s
    \<and> audioBufferRef (step (DataAvailable r b) s) =
         audioBufferRef s @ filter (\<lambda>b. blob_size b > 0) [b]"
  using assms by (simp add: ondataavailable_def)

lemma chunks_run_no_handle:
  assumes "connectionRef s = None"
    and "recorders s r = Some m" and "ondataavailable_set m"
  shows "sdk_calls (run (map (DataAvailable r) xs) s) = sdk_calls s
    \<and> audioBufferRef (run (map (DataAvailable r) xs) s) =
         audioBufferRef s @ filter (\<lambda>b. blob_size b > 0) xs"
  using assms
proof (induction xs arbitrary: s)
  case Nil
  then show ?case by (simp add: run_def)
next
  case (Cons x xs)
  let ?s1 = "step (DataAvailable r x) s"
  have run_eq: "run (map (DataAvailable r) (x # xs)) s = run (map (DataAvailable r) xs) ?s1"
    by (simp add: run_def)
  from chunk_step_no_handle [OF Cons.prems, of x] Cons.prems have
    a: "connectionRef ?s1 = None" and b: "recorders ?s1 r = Some m"
    and c: "sdk_calls ?s1 = sdk_calls s"
    and d: "audioBufferRef ?s1 = audioBufferRef s @ filter (\<lambda>b. blob_size b > 0) [x]"
    by simp_all
  from Cons.IH [OF a b Cons.prems(3)] c d show ?case
    unfolding run_eq by simp
qed

lemma empty_chunks_ignored:
  assumes "filter (\<lambda>b. blob_size b > 0) ys = []"
  shows "run (map (DataAvailable r) ys) s = s"
  using assms
proof (induction ys)
  case Nil
  then show ?case by (simp add: run_def)
next
  case (Cons y ys)
  from Cons.prems have z: "blob_size y = 0" and rest: "filter (\<lambda>b. blob_size b > 0) ys = []"
    by (simp_all split: if_splits)
  have "run (map (DataAvailable r) (y # ys)) s = run (map (DataAvailable r) ys) s"
    by (simp add: run_def empty_chunk_ignored [OF z] del: step.simps)
  with Cons.IH [OF rest] show ?case by simp
qed

text \<open>
  C2, as the code has it. A recorder \<open>r\<close> delivers chunks to the handler while the
  connection is not online (no handle is held, or the connection of the handle is not
  ready): nothing is sent, and the chunks of non-zero size are appended to the buffer in
  arrival order. If a handle is held and its connection then opens, the open itself sends
  nothing. Once \<open>r\<close> has delivered a chunk of non-zero size after the open, what has been
  sent to that connection since the beginning is exactly the buffered chunks, oldest
  first, followed by the chunks of non-zero size that arrived after the open, in arrival
  order, each once, and the buffer is empty. As long as no chunk of non-zero size has
  arrived after the open, nothing has been sent and the buffer is as it was. Chunks of
  size zero are ignored: neither buffered nor sent.
\<close>

theorem buffered_chunks_drained_by_next_chunk:
  assumes "recorders s r = Some m" and "ondataavailable_set m" and "\<not> online s"
  shows "sdk_calls (run (map (DataAvailable r) xs) s) = sdk_calls s
   \<and> audioBufferRef (run (map (DataAvailable r) xs) s) =
       audioBufferRef s @ filter (\<lambda>b. blob_size b > 0) xs
   \<and> (connectionRef s = Some c \<and> conns s c = Some k \<longrightarrow>
        sdk_calls (run (map (DataAvailable r) xs @ ConnOpen c # map (DataAvailable r) ys) s) =
          sdk_calls s @
            (if filter (\<lambda>b. blob_size b > 0) ys = [] then []
             else map (Send c) (audioBufferRef s @ filter (\<lambda>b. blob_size b > 0) xs
                                  @ filter (\<lambda>b. blob_size b > 0) ys))
        \<and> audioBufferRef (run (map (DataAvailable r) xs @ ConnOpen c # map (DataAvailable r) ys) s) =
            (if filter (\<lambda>b. blob_size b > 0) ys = []
             then audioBufferRef s @ filter (\<lambda>b. blob_size b > 0) xs else []))"
proof -
  let ?ne = "\<lambda>b. blob_size b > 0"
  let ?s1 = "run (map (DataAvailable r) xs) s"
  have buffering: "sdk_calls ?s1 = sdk_calls s \<and> audioBufferRef ?s1 = audioBufferRef s @ filter ?ne xs"
  proof (cases "connectionRef s")
    case None
    from chunks_run_no_handle [OF None assms(1,2)] show ?thesis .
  next
    case (Some c')
    with assms have l0: "listening r c' s" and nr: "\<not> conn_ready c' s"
      by (simp_all add: listening_def online_def)
    from chunks_run [OF l0, of xs] nr have
      t1: "sdk_calls ?s1 @ map (Send c') (audioBufferRef ?s1)
              = sdk_calls s @ map (Send c') (audioBufferRef s @ filter ?ne xs)"
      and c1: "sdk_calls ?s1 = sdk_calls s"
      by blast+
    have inj: "inj (Send c')"
      by (simp add: inj_def)
    from t1 c1 have "map (Send c') (audioBufferRef ?s1) = map (Send c') (audioBufferRef s @ filter ?ne xs)"
      by simp
    then have "audioBufferRef ?s1 = audioBufferRef s @ filter ?ne xs"
      using inj_map_eq_map [OF inj] by blast
    with c1 show ?thesis by simp
  qed
  have draining: "sdk_calls (run (map (DataAvailable r) xs @ ConnOpen c # map (DataAvailable r) ys) s) =
          sdk_calls s @
            (if filter ?ne ys = [] then []
             else map (Send c) (audioBufferRef s @ filter ?ne xs @ filter ?ne ys))
        \<and> audioBufferRef (run (map (DataAvailable r) xs @ ConnOpen c # map (DataAvailable r) ys) s) =
            (if filter ?ne ys = [] then audioBufferRef s @ filter ?ne xs else [])"
    if cr: "connectionRef s = Some c" and k: "conns s c = Some k"
  proof -
    let ?s2 = "step (ConnOpen c) ?s1"
    let ?s3 = "run (map (DataAvailable r) ys) ?s2"
    from cr assms have l0: "listening r c s"
      by (simp add: listening_def)
    from chunks_run [OF l0, of xs] k have l1: "listening r c ?s1" and k': "conns ?s1 c = Some k"
      by simp_all
    from open_keeps_listening [OF l1 k'] have
      l2: "listening r c ?s2" and r2: "conn_ready c ?s2"
      and c2: "sdk_calls ?s2 = sdk_calls ?s1" and b2: "audioBufferRef ?s2 = audioBufferRef ?s1"
      by blast+
    have e: "run (map (DataAvailable r) xs @ ConnOpen c # map (DataAvailable r) ys) s = ?s3"
      by (simp add: run_def del: step.simps)
    show ?thesis
    proof (cases "filter ?ne ys = []")
      case True
      from empty_chunks_ignored [OF True, of r ?s2] have "?s3 = ?s2" .
      with True c2 b2 buffering show ?thesis unfolding e by simp
    next
      case False
      from chunks_run [OF l2, of ys] have
        t3: "sdk_calls ?s3 @ map (Send c) (audioBufferRef ?s3)
              = sdk_calls ?s2 @ map (Send c) (audioBufferRef ?s2 @ filter ?ne ys)"
        by blast
      have b3: "audioBufferRef ?s3 = []"
        by (rule chunks_run_ready_empties [OF l2 r2 False])
      from t3 b3 c2 b2 buffering have "sdk_calls ?s3 =
          sdk_calls s @ map (Send c) (audioBufferRef s @ filter ?ne xs @ filter ?ne ys)"
        by simp
      with b3 False show ?thesis unfolding e by simp
    qed
  qed
  from buffering draining show ?thesis by blast
qed

theorem buffered_chunks_drained_by_next_chunk_witness:
  "map_option ondataavailable_set (recorders second_connecting 0) = Some True
   \<and> \<not> online second_connecting
   \<and> connectionRef second_connecting = Some 1
   \<and> map_option readyState (conns second_connecting 1) = Some 0
   \<and> sdk_calls (run (map (DataAvailable 0) [Blob [1], Blob [], Blob [2]]) second_connecting) =
        sdk_calls second_connecting
   \<and> audioBufferRef (run (map (DataAvailable 0) [Blob [1], Blob [], Blob [2]]) second_connecting) =
        [Blob [1], Blob [2]]
   \<and> sdk_calls (run (map (DataAvailable 0) [Blob [1], Blob [], Blob [2]] @ ConnOpen 1 #
          map (DataAvailable 0) [Blob [], Blob [3], Blob [4]]) second_connecting) =
        sdk_calls second_connecting
          @ [Send 1 (Blob [1]), Send 1 (Blob [2]), Send 1 (Blob [3]), Send 1 (Blob [4])]
   \<and> audioBufferRef (run (map (DataAvailable 0) [Blob [1], Blob [], Blob [2]] @ ConnOpen 1 #
          map (DataAvailable 0) [Blob [], Blob [3], Blob [4]]) second_connecting) = []"
proof -
  have h1: "recorders second_connecting 0 =
      Some \<lparr> rstream = 0, mimeType = '''', rstate = Recording, timeslice = Some 200,
             ondataavailable_set = True \<rparr>"
    by (simp add: second_connecting_def run_def model_defs Let_def)
  have h2: "ondataavailable_set \<lparr> rstream = 0, mimeType = '''', rstate = Recording,
      timeslice = Some 200, ondataavailable_set = True \<rparr>"
    by simp
  have h3: "\<not> online second_connecting"
    by (simp add: online_def second_connecting_def run_def model_defs Let_def)
  have h4: "connectionRef second_connecting = Some 1"
    by (simp add: second_connecting_def run_def model_defs Let_def)
  have h5: "conns second_connecting 1 =
      Some \<lparr> options = \<lparr>model = ''nova'', language = ''en-US'', smart_format = True\<rparr>,
             readyState = 0, waiter = Some 1 \<rparr>"
    by (simp add: second_connecting_def run_def model_defs Let_def)
  have b0: "audioBufferRef second_connecting = []"
    by (simp add: second_connecting_def run_def model_defs Let_def)
  from buffered_chunks_drained_by_next_chunk [OF h1 h2 h3,
      of "[Blob [1], Blob [], Blob [2]]" 1 _ "[Blob [], Blob [3], Blob [4]]"]
  show ?thesis
    using h1 h3 h4 h5 b0 by (simp add: blob_size_def del: step.simps)
qed

text \<open>
  C2 as stated fails. Two chunks arrive while the connection in \<open>connectionRef\<close> is
  still connecting and are buffered; the connection opens; a chunk of size zero arrives;
  the button is released and pressed again. The buffered chunks were never sent, and the
  new press has emptied the buffer.
\<close>

theorem open_sends_nothing_counterexample:
  "audioBufferRef (run [HandleStart, HandleStop, HandleStart, MicGranted, MicGranted, ConnOpen 0,
       DataAvailable 0 (Blob [1]), DataAvailable 0 (Blob [2])]
       (init (Some ''key'') [])) = [Blob [1], Blob [2]]
   \<and> online (run [HandleStart, HandleStop, HandleStart, MicGranted, MicGranted, ConnOpen 0,
       DataAvailable 0 (Blob [1]), DataAvailable 0 (Blob [2]), ConnOpen 1]
       (init (Some ''key'') []))
   \<and> audioBufferRef (run [HandleStart, HandleStop, HandleStart, MicGranted, MicGranted, ConnOpen 0,
       DataAvailable 0 (Blob [1]), DataAvailable 0 (Blob [2]), ConnOpen 1, DataAvailable 0 (Blob [])]
       (init (Some ''key'') [])) = [Blob [1], Blob [2]]
   \<and> sdk_calls (run [HandleStart, HandleStop, HandleStart, MicGranted, MicGranted, ConnOpen 0,
       DataAvailable 0 (Blob [1]), DataAvailable 0 (Blob [2]), ConnOpen 1, DataAvailable 0 (Blob []),
       HandleStop, HandleStart]
       (init (Some ''key'') [])) =
     [ListenLive 0 \<lparr>model = ''nova'', language = ''en-US'', smart_format = True\<rparr>,
      ListenLive 1 \<lparr>model = ''nova'', language = ''en-US'', smart_format = True\<rparr>]
   \<and> audioBufferRef (run [HandleStart, HandleStop, HandleStart, MicGranted, MicGranted, ConnOpen 0,
       DataAvailable 0 (Blob [1]), DataAvailable 0 (Blob [2]), ConnOpen 1, DataAvailable 0 (Blob []),
       HandleStop, HandleStart]
       (init (Some ''key'') [])) = []"
  by (simp add: run_def online_def model_defs Let_def)

section \<open>Connection options\<close>

lemma stopKeepAlive_calls: "sdk_calls (stopKeepAlive s) = sdk_calls s"
  by (simp add: stopKeepAlive_def split: option.splits)

lemma fire_fixed_options:
  assumes "list_all fixed_options_call (sdk_calls s)"
  shows "list_all fixed_options_call (sdk_calls (fire t s))"
  using assms
  by (simp add: fire_def closeConnection_def heartbeat_def stopKeepAlive_calls Let_def
      split: timer_callback.splits option.splits)

lemma fold_fire_fixed_options:
  assumes "list_all fixed_options_call (sdk_calls s)"
  shows "list_all fixed_options_call (sdk_calls (fold fire ts s))"
  using assms by (induction ts arbitrary: s) (simp_all add: fire_fixed_options)

lemma mic_granted_fixed_options:
  assumes "list_all fixed_options_call (sdk_calls s)"
  shows "list_all fixed_options_call (sdk_calls (mic_granted s))"
  using assms
  by (auto simp add: mic_granted_def startMicrophone_def initConnection_def getDeepgramClient_def
      createTranscriptionConnection_def listen_live_def start_recording_def handleStart_catch_def
      Let_def split: option.splits prod.splits init_result.splits if_splits sum.splits list.splits)

lemma step_fixed_options:
  assumes "list_all fixed_options_call (sdk_calls s)"
  shows "list_all fixed_options_call (sdk_calls (step e s))"
proof (cases e)
  case HandleStart
  with assms show ?thesis by (simp add: handleStart_def Let_def split: option.splits)
next
  case HandleStop
  with assms show ?thesis
    by (simp add: handleStop_def stopMicrophone_def recorder_stop_def Let_def split: option.splits)
next
  case ClearTranscription
  with assms show ?thesis by (simp add: clearTranscription_def)
next
  case MicGranted
  with assms show ?thesis by (simp add: mic_granted_fixed_options)
next
  case (MicDenied x)
  with assms show ?thesis by (simp add: mic_denied_def handleStart_catch_def split: list.splits)
next
  case (ConnOpen c)
  with assms show ?thesis
    by (simp add: on_open_def set_ready_state_def startKeepAlive_def stopKeepAlive_def
        resolve_def start_recording_def Let_def split: option.splits)
next
  case (ConnResults c d)
  with assms show ?thesis
    by (simp add: on_results_def handleResults_def split: sum.splits)
next
  case (ConnError c x)
  with assms show ?thesis
    by (simp add: on_error_def reject_def handleStart_catch_def split: option.splits)
next
  case (ConnClose c)
  with assms show ?thesis
    by (simp add: on_close_def set_ready_state_def stopKeepAlive_def split: option.splits)
next
  case (SocketState c n)
  with assms show ?thesis by (simp add: set_ready_state_def split: option.splits)
next
  case (DataAvailable r b)
  with assms show ?thesis
    by (auto simp add: ondataavailable_def sdk_send_def flush_buffer_calls list_all_iff
        split: option.splits)
next
  case Tick
  with assms show ?thesis by (simp add: tick_def Let_def fold_fire_fixed_options)
next
  case Teardown
  with assms show ?thesis
    by (simp add: teardown_def stopKeepAlive_def Let_def split: option.splits)
qed

lemma run_fixed_options:
  assumes "list_all fixed_options_call (sdk_calls s)"
  shows "list_all fixed_options_call (sdk_calls (run es s))"
  using assms
proof (induction es arbitrary: s)
  case Nil
  then show ?case by (simp add: run_def)
next
  case (Cons e es)
  from Cons.IH [OF step_fixed_options [OF Cons.prems, of e]]
  show ?case by (simp add: run_def del: step.simps)
qed

lemma createTranscriptionConnection_calls:
  "sdk_calls (snd (createTranscriptionConnection dg s)) =
     sdk_calls s @ [ListenLive (next_conn s)
                      \<lparr> model = ''nova'', language = ''en-US'', smart_format = True \<rparr>]"
  by (simp add: createTranscriptionConnection_def listen_live_def Let_def)

text \<open>
  C10. Whatever happens to the component after it is mounted, with any key and any
  supported types, every call of \<open>listen.live\<close> it has made passed the options model
  \<open>nova\<close>, language \<open>en-US\<close>, smart formatting on.
\<close>

theorem connections_use_fixed_options:
  assumes "ListenLive c opts \<in> set (sdk_calls (run es (init key types)))"
  shows "opts = \<lparr> model = ''nova'', language = ''en-US'', smart_format = True \<rparr>"
proof -
  have "list_all fixed_options_call (sdk_calls (init key types))"
    by (simp add: init_def)
  then have "list_all fixed_options_call (sdk_calls (run es (init key types)))"
    by (rule run_fixed_options)
  with assms have "fixed_options_call (ListenLive c opts)"
    unfolding list_all_iff by blast
  then show ?thesis by simp
qed

theorem connections_use_fixed_options_witness:
  "ListenLive 0 \<lparr> model = ''nova'', language = ''en-US'', smart_format = True \<rparr>
     \<in> set (sdk_calls (run [HandleStart, MicGranted] (init (Some ''key'') [])))
   \<and> \<lparr> model = ''nova'', language = ''en-US'', smart_format = True \<rparr>
       = \<lparr> model = ''nova'', language = ''en-US'', smart_format = True \<rparr>"
proof -
  have h: "ListenLive 0 \<lparr> model = ''nova'', language = ''en-US'', smart_format = True \<rparr>
     \<in> set (sdk_calls (run [HandleStart, MicGranted] (init (Some ''key'') [])))"
    by (simp add: run_def model_defs Let_def)
  from connections_use_fixed_options [OF h] h show ?thesis by blast
qed

section \<open>The timer table\<close>

lemma timers_wf_init: "timers_wf (init key types)"
  by (simp add: timers_wf_def timer_table_wf_def init_def)

lemma timers_wf_cong:
  assumes "timers s' = timers s" "closeTimeoutRef s' = closeTimeoutRef s"
    "keepAliveIntervalRef s' = keepAliveIntervalRef s" "next_timer s' = next_timer s"
  shows "timers_wf s' = timers_wf s"
  using assms by (simp add: timers_wf_def)

lemma stopKeepAlive_wf:
  assumes "timers_wf s"
  shows "timers_wf (stopKeepAlive s)"
  using assms
  by (auto simp add: timers_wf_def timer_table_wf_def owned_def stopKeepAlive_def clear_timer_def list_all_iff
      split: option.splits timer_callback.splits)

lemma startKeepAlive_wf:
  assumes "timers_wf s"
  shows "timers_wf (startKeepAlive s)"
  using assms
  by (auto simp add: timers_wf_def timer_table_wf_def owned_def startKeepAlive_def stopKeepAlive_def clear_timer_def
      list_all_iff Let_def split: option.splits timer_callback.splits)

lemma handleStart_wf:
  assumes "timers_wf s"
  shows "timers_wf (handleStart s)"
  using assms
  by (auto simp add: timers_wf_def timer_table_wf_def owned_def handleStart_def clear_timer_def
      list_all_iff Let_def split: option.splits timer_callback.splits)

lemma stopMicrophone_timers:
  "timers (stopMicrophone s) = timers s \<and> closeTimeoutRef (stopMicrophone s) = closeTimeoutRef s
   \<and> keepAliveIntervalRef (stopMicrophone s) = keepAliveIntervalRef s
   \<and> next_timer (stopMicrophone s) = next_timer s \<and> clock (stopMicrophone s) = clock s
   \<and> connectionRef (stopMicrophone s) = connectionRef s
   \<and> sdk_calls (stopMicrophone s) = sdk_calls s"
  by (simp add: stopMicrophone_def recorder_stop_def Let_def split: option.splits)

lemma handleStop_wf:
  assumes "timers_wf s"
  shows "timers_wf (handleStop s)"
  using assms
  by (auto simp add: timers_wf_def timer_table_wf_def owned_def handleStop_def stopMicrophone_timers clear_timer_def
      list_all_iff Let_def split: option.splits timer_callback.splits)

lemma teardown_wf:
  assumes "timers_wf s"
  shows "timers_wf (teardown s)"
  using assms
  by (auto simp add: timers_wf_def timer_table_wf_def owned_def teardown_def stopKeepAlive_def clear_timer_def
      list_all_iff Let_def split: option.splits timer_callback.splits)

lemma closeConnection_wf:
  assumes "timers_wf s"
  shows "timers_wf (closeConnection s)"
  using assms
  by (auto simp add: timers_wf_def timer_table_wf_def owned_def closeConnection_def stopKeepAlive_def clear_timer_def
      list_all_iff Let_def split: option.splits timer_callback.splits)

lemma fire_wf:
  assumes "timers_wf s"
  shows "timers_wf (fire t s)"
  using assms
  by (auto simp add: timers_wf_def timer_table_wf_def owned_def fire_def closeConnection_def heartbeat_def
      stopKeepAlive_def clear_timer_def rearm_def list_all_iff Let_def
      split: option.splits timer_callback.splits)

lemma fold_fire_wf:
  assumes "timers_wf s"
  shows "timers_wf (fold fire ts s)"
  using assms by (induction ts arbitrary: s) (simp_all add: fire_wf)

lemma tick_wf:
  assumes "timers_wf s"
  shows "timers_wf (tick s)"
proof -
  have "timers_wf (s\<lparr> clock := clock s + 1 \<rparr>)"
    using assms by (simp add: timers_wf_def)
  then show ?thesis
    by (simp add: tick_def Let_def fold_fire_wf)
qed

lemma mic_granted_timers:
  "timers (mic_granted s) = timers s \<and> closeTimeoutRef (mic_granted s) = closeTimeoutRef s
   \<and> keepAliveIntervalRef (mic_granted s) = keepAliveIntervalRef s
   \<and> next_timer (mic_granted s) = next_timer s \<and> clock (mic_granted s) = clock s"
  by (auto simp add: mic_granted_def startMicrophone_def initConnection_def getDeepgramClient_def
      createTranscriptionConnection_def listen_live_def start_recording_def handleStart_catch_def
      Let_def split: option.splits prod.splits init_result.splits if_splits sum.splits list.splits)

lemma resolve_timers:
  "timers (resolve c s) = timers s \<and> closeTimeoutRef (resolve c s) = closeTimeoutRef s
   \<and> keepAliveIntervalRef (resolve c s) = keepAliveIntervalRef s
   \<and> next_timer (resolve c s) = next_timer s \<and> clock (resolve c s) = clock s
   \<and> connectionRef (resolve c s) = connectionRef s \<and> sdk_calls (resolve c s) = sdk_calls s"
  by (simp add: resolve_def start_recording_def split: option.splits)

lemma set_ready_state_timers:
  "timers (set_ready_state c n s) = timers s
   \<and> closeTimeoutRef (set_ready_state c n s) = closeTimeoutRef s
   \<and> keepAliveIntervalRef (set_ready_state c n s) = keepAliveIntervalRef s
   \<and> next_timer (set_ready_state c n s) = next_timer s
   \<and> clock (set_ready_state c n s) = clock s
   \<and> connectionRef (set_ready_state c n s) = connectionRef s
   \<and> sdk_calls (set_ready_state c n s) = sdk_calls s"
  by (simp add: set_ready_state_def split: option.splits)

lemma on_error_timers:
  "timers (on_error c e s) = timers s \<and> closeTimeoutRef (on_error c e s) = closeTimeoutRef s
   \<and> keepAliveIntervalRef (on_error c e s) = keepAliveIntervalRef s
   \<and> next_timer (on_error c e s) = next_timer s \<and> clock (on_error c e s) = clock s
   \<and> connectionRef (on_error c e s) = connectionRef s \<and> sdk_calls (on_error c e s) = sdk_calls s"
  by (simp add: on_error_def reject_def handleStart_catch_def split: option.splits)

lemma on_results_timers:
  "timers (on_results d s) = timers s \<and> closeTimeoutRef (on_results d s) = closeTimeoutRef s
   \<and> keepAliveIntervalRef (on_results d s) = keepAliveIntervalRef s
   \<and> next_timer (on_results d s) = next_timer s \<and> clock (on_results d s) = clock s
   \<and> connectionRef (on_results d s) = connectionRef s \<and> sdk_calls (on_results d s) = sdk_calls s"
  by (simp add: on_results_def handleResults_def split: sum.splits)

lemma flush_buffer_timers:
  "timers (flush_buffer c s) = timers s \<and> closeTimeoutRef (flush_buffer c s) = closeTimeoutRef s
   \<and> keepAliveIntervalRef (flush_buffer c s) = keepAliveIntervalRef s
   \<and> next_timer (flush_buffer c s) = next_timer s \<and> clock (flush_buffer c s) = clock s"
proof (induction c s rule: flush_buffer.induct)
  case (1 c s)
  show ?case
  proof (cases "audioBufferRef s")
    case Nil
    then show ?thesis by (subst (1 2 3 4 5) flush_buffer.simps) simp
  next
    case (Cons b bs)
    then show ?thesis
      using 1 by (subst (1 2 3 4 5) flush_buffer.simps) (simp add: sdk_send_def)
  qed
qed

lemma ondataavailable_timers:
  "timers (ondataavailable b s) = timers s
   \<and> closeTimeoutRef (ondataavailable b s) = closeTimeoutRef s
   \<and> keepAliveIntervalRef (ondataavailable b s) = keepAliveIntervalRef s
   \<and> next_timer (ondataavailable b s) = next_timer s
   \<and> clock (ondataavailable b s) = clock s"
  by (simp add: ondataavailable_def sdk_send_def flush_buffer_timers split: option.splits)

lemma step_wf:
  assumes "timers_wf s"
  shows "timers_wf (step e s)"
proof (cases e)
  case HandleStart
  with assms show ?thesis by (simp add: handleStart_wf)
next
  case HandleStop
  with assms show ?thesis by (simp add: handleStop_wf)
next
  case ClearTranscription
  with assms show ?thesis by (simp add: clearTranscription_def timers_wf_def owned_def)
next
  case MicGranted
  with assms timers_wf_cong [of "mic_granted s" s] show ?thesis by (simp add: mic_granted_timers)
next
  case (MicDenied x)
  with assms show ?thesis
    by (simp add: mic_denied_def handleStart_catch_def timers_wf_def owned_def split: list.splits)
next
  case (ConnOpen c)
  have a: "timers_wf (set_ready_state c 1 s\<lparr>connectionStatus := Online\<rparr>)"
    using assms by (simp add: timers_wf_def set_ready_state_timers)
  have "timers_wf (on_open c (set_ready_state c 1 s))"
    unfolding on_open_def
    using startKeepAlive_wf [OF a] timers_wf_cong [of "resolve c (startKeepAlive (set_ready_state c 1 s\<lparr>connectionStatus := Online\<rparr>))" "startKeepAlive (set_ready_state c 1 s\<lparr>connectionStatus := Online\<rparr>)"]
    by (simp add: resolve_timers)
  with ConnOpen assms show ?thesis by simp
next
  case (ConnResults c d)
  with assms timers_wf_cong [of "on_results d s" s] show ?thesis by (simp add: on_results_timers)
next
  case (ConnError c x)
  with assms timers_wf_cong [of "on_error c x s" s] show ?thesis by (simp add: on_error_timers)
next
  case (ConnClose c)
  have a: "timers_wf (set_ready_state c 3 s\<lparr>connectionStatus := Offline\<rparr>)"
    using assms by (simp add: timers_wf_def set_ready_state_timers)
  from stopKeepAlive_wf [OF a] ConnClose assms show ?thesis by (simp add: on_close_def)
next
  case (SocketState c n)
  with assms timers_wf_cong [of "set_ready_state c n s" s] show ?thesis
    by (simp add: set_ready_state_timers)
next
  case (DataAvailable r b)
  with assms timers_wf_cong [of "ondataavailable b s" s] show ?thesis
    by (simp add: ondataavailable_timers split: option.splits)
next
  case Tick
  with assms show ?thesis by (simp add: tick_wf)
next
  case Teardown
  with assms show ?thesis by (simp add: teardown_wf)
qed

section \<open>The grace period\<close>

lemma grace_armed_cong:
  assumes "grace_armed D s"
    and "timers s' = timers s" and "closeTimeoutRef s' = closeTimeoutRef s"
    and "keepAliveIntervalRef s' = keepAliveIntervalRef s" and "next_timer s' = next_timer s"
    and "connectionRef s' \<noteq> None"
  shows "grace_armed D s'"
  using assms by (simp add: grace_armed_def timers_wf_def split: option.splits)

lemma finish_calls_cong:
  assumes "sdk_calls s' = sdk_calls s"
  shows "finish_calls s' = finish_calls s"
  using assms by (simp add: finish_calls_def)

lemma handleStop_arms:
  assumes "timers_wf s" and "connectionRef s \<noteq> None"
  shows "grace_armed (clock s + 60000) (handleStop s)
    \<and> finish_calls (handleStop s) = finish_calls s
    \<and> clock (handleStop s) = clock s"
proof -
  have wf: "timers_wf (handleStop s)"
    by (rule handleStop_wf [OF assms(1)])
  have rest: "(case closeTimeoutRef (handleStop s) of
            None \<Rightarrow> False
          | Some g \<Rightarrow> \<lparr> tid = g, due = clock s + 60000, callback = GraceClose \<rparr>
               \<in> set (timers (handleStop s)))
      \<and> list_all (\<lambda>t. case callback t of GraceClose \<Rightarrow> due t = clock s + 60000 | Heartbeat \<Rightarrow> True) (timers (handleStop s))
      \<and> connectionRef (handleStop s) \<noteq> None
      \<and> finish_calls (handleStop s) = finish_calls s
      \<and> clock (handleStop s) = clock s"
    using assms
    by (auto simp add: timers_wf_def timer_table_wf_def owned_def handleStop_def
        stopMicrophone_timers clear_timer_def finish_calls_def list_all_iff Let_def
        split: option.splits timer_callback.splits)
  from wf rest show ?thesis by (simp add: grace_armed_def)
qed

lemma stopKeepAlive_keeps_grace:
  assumes "grace_armed D s"
  shows "grace_armed D (stopKeepAlive s)"
proof -
  have wf: "timers_wf (stopKeepAlive s)"
    using assms by (simp add: grace_armed_def stopKeepAlive_wf)
  have "(case closeTimeoutRef (stopKeepAlive s) of
            None \<Rightarrow> False
          | Some g \<Rightarrow> \<lparr> tid = g, due = D, callback = GraceClose \<rparr> \<in> set (timers (stopKeepAlive s)))
      \<and> list_all (\<lambda>t. case callback t of GraceClose \<Rightarrow> due t = D | Heartbeat \<Rightarrow> True) (timers (stopKeepAlive s))
      \<and> connectionRef (stopKeepAlive s) \<noteq> None"
    using assms
    by (auto simp add: grace_armed_def timers_wf_def timer_table_wf_def owned_def
        stopKeepAlive_def clear_timer_def list_all_iff split: option.splits timer_callback.splits)
  with wf show ?thesis by (simp add: grace_armed_def)
qed

lemma startKeepAlive_keeps_grace:
  assumes "grace_armed D s"
  shows "grace_armed D (startKeepAlive s)"
proof -
  have wf: "timers_wf (startKeepAlive s)"
    using assms by (simp add: grace_armed_def startKeepAlive_wf)
  have "(case closeTimeoutRef (startKeepAlive s) of
            None \<Rightarrow> False
          | Some g \<Rightarrow> \<lparr> tid = g, due = D, callback = GraceClose \<rparr> \<in> set (timers (startKeepAlive s)))
      \<and> list_all (\<lambda>t. case callback t of GraceClose \<Rightarrow> due t = D | Heartbeat \<Rightarrow> True) (timers (startKeepAlive s))
      \<and> connectionRef (startKeepAlive s) \<noteq> None"
    using assms
    by (auto simp add: grace_armed_def timers_wf_def timer_table_wf_def owned_def
        startKeepAlive_def stopKeepAlive_def clear_timer_def list_all_iff Let_def
        split: option.splits timer_callback.splits)
  with wf show ?thesis by (simp add: grace_armed_def)
qed

lemma keepAlive_calls:
  "sdk_calls (startKeepAlive s) = sdk_calls s \<and> clock (startKeepAlive s) = clock s
   \<and> clock (stopKeepAlive s) = clock s"
  by (simp add: startKeepAlive_def stopKeepAlive_def Let_def split: option.splits)

lemma mic_granted_conn:
  assumes "connectionRef s \<noteq> None"
  shows "connectionRef (mic_granted s) \<noteq> None \<and> finish_calls (mic_granted s) = finish_calls s"
  using assms
  by (auto simp add: mic_granted_def startMicrophone_def initConnection_def getDeepgramClient_def
      createTranscriptionConnection_def listen_live_def start_recording_def handleStart_catch_def
      finish_calls_def Let_def
      split: option.splits prod.splits init_result.splits if_splits sum.splits list.splits)

lemma ondataavailable_finish:
  "finish_calls (ondataavailable b s) = finish_calls s"
  by (simp add: ondataavailable_def sdk_send_def flush_buffer_calls finish_calls_def
      filter_map comp_def split: option.splits)

lemma mic_denied_timers:
  "timers (mic_denied e s) = timers s \<and> closeTimeoutRef (mic_denied e s) = closeTimeoutRef s
   \<and> keepAliveIntervalRef (mic_denied e s) = keepAliveIntervalRef s
   \<and> next_timer (mic_denied e s) = next_timer s \<and> clock (mic_denied e s) = clock s
   \<and> connectionRef (mic_denied e s) = connectionRef s \<and> sdk_calls (mic_denied e s) = sdk_calls s"
  by (simp add: mic_denied_def handleStart_catch_def split: list.splits)

lemma quiet_step_keeps_grace:
  assumes "grace_armed D s" and "quiet e" and "\<not> is_tick e"
  shows "grace_armed D (step e s) \<and> finish_calls (step e s) = finish_calls s
    \<and> clock (step e s) = clock s"
proof (cases e)
  case HandleStart
  with assms show ?thesis by simp
next
  case HandleStop
  with assms show ?thesis by simp
next
  case ClearTranscription
  with assms grace_armed_cong [of D s "clearTranscription s"] show ?thesis
    by (simp add: clearTranscription_def finish_calls_def grace_armed_def)
next
  case MicGranted
  from assms(1) have c: "connectionRef s \<noteq> None" by (simp add: grace_armed_def)
  from MicGranted assms grace_armed_cong [of D s "mic_granted s"] mic_granted_conn [OF c]
  show ?thesis by (simp add: mic_granted_timers)
next
  case (MicDenied x)
  with assms grace_armed_cong [of D s "mic_denied x s"] show ?thesis
    by (simp add: mic_denied_timers finish_calls_def grace_armed_def)
next
  case (ConnOpen c)
  let ?s1 = "set_ready_state c 1 s\<lparr>connectionStatus := Online\<rparr>"
  have a: "grace_armed D ?s1"
    using assms(1) grace_armed_cong [of D s ?s1]
    by (simp add: set_ready_state_timers grace_armed_def)
  have b: "grace_armed D (startKeepAlive ?s1)"
    by (rule startKeepAlive_keeps_grace [OF a])
  have "grace_armed D (resolve c (startKeepAlive ?s1))"
    using b grace_armed_cong [of D "startKeepAlive ?s1" "resolve c (startKeepAlive ?s1)"]
    by (simp add: resolve_timers grace_armed_def)
  moreover have "finish_calls (resolve c (startKeepAlive ?s1)) = finish_calls s"
    by (simp add: finish_calls_def resolve_timers keepAlive_calls set_ready_state_timers)
  moreover have "clock (resolve c (startKeepAlive ?s1)) = clock s"
    by (simp add: resolve_timers keepAlive_calls set_ready_state_timers)
  ultimately show ?thesis using ConnOpen assms(1) by (simp add: on_open_def finish_calls_def)
next
  case (ConnResults c d)
  with assms grace_armed_cong [of D s "on_results d s"] show ?thesis
    by (simp add: on_results_timers finish_calls_def grace_armed_def)
next
  case (ConnError c x)
  with assms grace_armed_cong [of D s "on_error c x s"] show ?thesis
    by (simp add: on_error_timers finish_calls_def grace_armed_def)
next
  case (ConnClose c)
  let ?s1 = "set_ready_state c 3 s\<lparr>connectionStatus := Offline\<rparr>"
  have a: "grace_armed D ?s1"
    using assms(1) grace_armed_cong [of D s ?s1]
    by (simp add: set_ready_state_timers grace_armed_def)
  have b: "grace_armed D (stopKeepAlive ?s1)"
    by (rule stopKeepAlive_keeps_grace [OF a])
  moreover have "finish_calls (stopKeepAlive ?s1) = finish_calls s"
    by (simp add: finish_calls_def stopKeepAlive_calls set_ready_state_timers)
  moreover have "clock (stopKeepAlive ?s1) = clock s"
    by (simp add: keepAlive_calls set_ready_state_timers)
  ultimately show ?thesis using ConnClose assms(1) by (simp add: on_close_def finish_calls_def)
next
  case (SocketState c n)
  with assms grace_armed_cong [of D s "set_ready_state c n s"] show ?thesis
    by (simp add: set_ready_state_timers finish_calls_def grace_armed_def)
next
  case (DataAvailable r b)
  with assms grace_armed_cong [of D s "ondataavailable b s"] show ?thesis
    by (simp add: ondataavailable_timers ondataavailable_frame ondataavailable_finish
        grace_armed_def split: option.splits)
next
  case Tick
  with assms show ?thesis by simp
next
  case Teardown
  with assms show ?thesis by simp
qed

lemma fire_heartbeat_fields:
  assumes "callback t = Heartbeat"
  shows "closeTimeoutRef (fire t s) = closeTimeoutRef s
    \<and> keepAliveIntervalRef (fire t s) = keepAliveIntervalRef s
    \<and> next_timer (fire t s) = next_timer s
    \<and> clock (fire t s) = clock s
    \<and> connectionRef (fire t s) = connectionRef s
    \<and> finish_calls (fire t s) = finish_calls s
    \<and> (timers (fire t s) = timers s \<or> timers (fire t s) = rearm (tid t) (timers s))"
  using assms
  by (simp add: fire_def heartbeat_def finish_calls_def split: option.splits)

lemma rearm_member:
  assumes "G \<in> set ts" and "tid G \<noteq> i"
  shows "G \<in> set (rearm i ts)"
  using assms by (simp add: rearm_def clear_timer_def)

lemma rearm_keeps_due:
  assumes "list_all (owned ct ka) ts" and "ct \<noteq> Some i"
    and "list_all (\<lambda>t. case callback t of GraceClose \<Rightarrow> due t = D | Heartbeat \<Rightarrow> True) ts"
  shows "list_all (\<lambda>t. case callback t of GraceClose \<Rightarrow> due t = D | Heartbeat \<Rightarrow> True)
           (rearm i ts)"
  using assms
  by (auto simp add: rearm_def clear_timer_def owned_def list_all_iff
      split: timer_callback.splits)

lemma fire_heartbeat_keeps_grace:
  assumes "grace_armed D s" and "callback t = Heartbeat"
    and "keepAliveIntervalRef s = Some (tid t)"
  shows "grace_armed D (fire t s) \<and> finish_calls (fire t s) = finish_calls s
    \<and> clock (fire t s) = clock s
    \<and> keepAliveIntervalRef (fire t s) = keepAliveIntervalRef s"
proof -
  from assms(1) obtain g where
    wf: "timers_wf s" and g: "closeTimeoutRef s = Some g"
    and G: "\<lparr> tid = g, due = D, callback = GraceClose \<rparr> \<in> set (timers s)"
    and dues: "list_all (\<lambda>t. case callback t of GraceClose \<Rightarrow> due t = D | Heartbeat \<Rightarrow> True) (timers s)"
    and conn: "connectionRef s \<noteq> None"
    by (auto simp add: grace_armed_def split: option.splits)
  from wf assms(3) g have ne: "g \<noteq> tid t" and ne': "closeTimeoutRef s \<noteq> Some (tid t)"
    by (auto simp add: timers_wf_def timer_table_wf_def)
  from wf have own: "list_all (owned (closeTimeoutRef s) (keepAliveIntervalRef s)) (timers s)"
    by (simp add: timers_wf_def timer_table_wf_def)
  note f = fire_heartbeat_fields [OF assms(2), of s]
  have wf': "timers_wf (fire t s)"
    by (rule fire_wf [OF wf])
  have G': "\<lparr> tid = g, due = D, callback = GraceClose \<rparr> \<in> set (timers (fire t s))"
    using f G rearm_member [OF G, of "tid t"] ne by auto
  have dues': "list_all (\<lambda>t. case callback t of GraceClose \<Rightarrow> due t = D | Heartbeat \<Rightarrow> True)
      (timers (fire t s))"
    using f dues rearm_keeps_due [OF own ne' dues] by auto
  from wf' G' dues' conn f g have "grace_armed D (fire t s)"
    by (simp add: grace_armed_def)
  with f show ?thesis by simp
qed

lemma fold_fire_heartbeats_keep_grace:
  assumes "grace_armed D s" and "keepAliveIntervalRef s = ka"
    and "list_all (\<lambda>t. callback t = Heartbeat \<and> ka = Some (tid t)) ts"
  shows "grace_armed D (fold fire ts s) \<and> finish_calls (fold fire ts s) = finish_calls s
    \<and> clock (fold fire ts s) = clock s"
  using assms
proof (induction ts arbitrary: s)
  case Nil
  then show ?case by simp
next
  case (Cons t ts)
  from Cons.prems(3) [unfolded list.pred_inject]
  have t1: "callback t = Heartbeat" and t2: "ka = Some (tid t)"
    and rest: "list_all (\<lambda>t. callback t = Heartbeat \<and> ka = Some (tid t)) ts"
    by blast+
  from t1 t2 Cons.prems(2)
  have t: "callback t = Heartbeat" "keepAliveIntervalRef s = Some (tid t)"
    by simp_all
  from fire_heartbeat_keeps_grace [OF Cons.prems(1) t] Cons.prems(2) have
    a: "grace_armed D (fire t s)" and b: "finish_calls (fire t s) = finish_calls s"
    and c: "clock (fire t s) = clock s"
    and d: "keepAliveIntervalRef (fire t s) = ka"
    by simp_all
  from Cons.IH [OF a d rest] b c show ?case by simp
qed

lemma due_now_are_heartbeats:
  assumes "grace_armed D s" and "n \<noteq> D"
  shows "list_all (\<lambda>t. callback t = Heartbeat \<and> keepAliveIntervalRef s = Some (tid t))
           (filter (\<lambda>t. due t = n) (timers s))"
proof -
  from assms(1) have
    own: "list_all (owned (closeTimeoutRef s) (keepAliveIntervalRef s)) (timers s)"
    and dues: "list_all (\<lambda>t. case callback t of GraceClose \<Rightarrow> due t = D | Heartbeat \<Rightarrow> True) (timers s)"
    by (simp_all add: grace_armed_def timers_wf_def timer_table_wf_def)
  show ?thesis
    unfolding list_all_iff
  proof
    fix t assume "t \<in> set (filter (\<lambda>t. due t = n) (timers s))"
    then have m: "t \<in> set (timers s)" and d: "due t = n" by simp_all
    from own m have o: "owned (closeTimeoutRef s) (keepAliveIntervalRef s) t"
      by (simp add: list_all_iff)
    from dues m have "case callback t of GraceClose \<Rightarrow> due t = D | Heartbeat \<Rightarrow> True"
      by (simp add: list_all_iff)
    with d assms(2) have h: "callback t = Heartbeat"
      by (cases "callback t") simp_all
    with o show "callback t = Heartbeat \<and> keepAliveIntervalRef s = Some (tid t)"
      by (simp add: owned_def)
  qed
qed

lemma tick_before_due:
  assumes "grace_armed D s" and "clock s + 1 \<noteq> D"
  shows "grace_armed D (tick s) \<and> finish_calls (tick s) = finish_calls s
    \<and> clock (tick s) = clock s + 1"
proof -
  let ?s1 = "s\<lparr> clock := clock s + 1 \<rparr>"
  from assms(1) have "connectionRef s \<noteq> None" by (simp add: grace_armed_def)
  with grace_armed_cong [OF assms(1), of ?s1] have a: "grace_armed D ?s1"
    by simp
  have b: "list_all (\<lambda>t. callback t = Heartbeat \<and> keepAliveIntervalRef ?s1 = Some (tid t))
           (filter (\<lambda>t. due t = clock s + 1) (timers ?s1))"
    by (rule due_now_are_heartbeats [OF a assms(2)])
  from fold_fire_heartbeats_keep_grace [OF a refl b] show ?thesis
    by (simp add: tick_def Let_def finish_calls_def)
qed

lemma owned_all_cleared:
  assumes "list_all (owned (Some g) ka) ts"
  shows "(case ka of None \<Rightarrow> clear_timer g ts | Some i \<Rightarrow> clear_timer i (clear_timer g ts)) = []"
  using assms
  by (induction ts) (auto simp add: owned_def clear_timer_def split: option.splits timer_callback.splits)

lemma grace_fire_closes:
  assumes "grace_armed D s" and "closeTimeoutRef s = Some g"
  shows "closed_after (finish_calls s) (fire \<lparr> tid = g, due = D, callback = GraceClose \<rparr> s)"
proof -
  let ?G = "\<lparr> tid = g, due = D, callback = GraceClose \<rparr>"
  from assms have G: "?G \<in> set (timers s)" and conn: "connectionRef s \<noteq> None"
    and own: "list_all (owned (Some g) (keepAliveIntervalRef s)) (timers s)"
    by (simp_all add: grace_armed_def timers_wf_def timer_table_wf_def)
  from G have "tid ?G \<in> tid ` set (timers s)"
    by (rule imageI)
  then have pending: "g \<in> set (map tid (timers s))"
    by simp
  from conn obtain c where c: "connectionRef s = Some c" by blast
  have f: "fire ?G s = closeConnection (s\<lparr> timers := clear_timer g (timers s) \<rparr>)"
    using pending by (simp add: fire_def)
  show ?thesis
    unfolding f using c owned_all_cleared [OF own]
    by (simp add: closed_after_def closeConnection_def stopKeepAlive_def finish_calls_def Let_def
        split: option.splits)
qed

lemma closed_fire_skips:
  assumes "closed_after F s"
  shows "fire t s = s"
  using assms by (simp add: closed_after_def fire_def)

lemma closed_fold_fire_skips:
  assumes "closed_after F s"
  shows "fold fire ts s = s"
  using assms by (induction ts) (simp_all add: closed_fire_skips)

lemma fold_fire_at_due:
  assumes "grace_armed D s" and "finish_calls s = F"
    and "keepAliveIntervalRef s = ka" and "closeTimeoutRef s = Some g"
    and "list_all (\<lambda>t. t = \<lparr> tid = g, due = D, callback = GraceClose \<rparr>
                       \<or> (callback t = Heartbeat \<and> ka = Some (tid t))) ts"
    and "\<lparr> tid = g, due = D, callback = GraceClose \<rparr> \<in> set ts"
  shows "closed_after F (fold fire ts s)"
  using assms
proof (induction ts arbitrary: s)
  case Nil
  then show ?case by simp
next
  case (Cons t ts)
  let ?G = "\<lparr> tid = g, due = D, callback = GraceClose \<rparr>"
  from Cons.prems(5) [unfolded list.pred_inject]
  have el: "t = ?G \<or> (callback t = Heartbeat \<and> ka = Some (tid t))"
    and rest: "list_all (\<lambda>t. t = ?G \<or> (callback t = Heartbeat \<and> ka = Some (tid t))) ts"
    by blast+
  show ?case
  proof (cases "t = ?G")
    case True
    from grace_fire_closes [OF Cons.prems(1) Cons.prems(4)] Cons.prems(2) True
    have "closed_after F (fire t s)" by simp
    with closed_fold_fire_skips [of F "fire t s" ts] show ?thesis by simp
  next
    case False
    with el Cons.prems(3) have t: "callback t = Heartbeat" "keepAliveIntervalRef s = Some (tid t)"
      by simp_all
    from False Cons.prems(6) have mem: "?G \<in> set ts" by auto
    from fire_heartbeat_keeps_grace [OF Cons.prems(1) t] fire_heartbeat_fields [OF t(1), of s]
      Cons.prems(2,3,4)
    have a: "grace_armed D (fire t s)" and b: "finish_calls (fire t s) = F"
      and c: "keepAliveIntervalRef (fire t s) = ka" and d: "closeTimeoutRef (fire t s) = Some g"
      by simp_all
    from Cons.IH [OF a b c d rest mem] show ?thesis by simp
  qed
qed

lemma tick_at_due:
  assumes "grace_armed D s" and "clock s + 1 = D"
  shows "closed_after (finish_calls s) (tick s)"
proof -
  let ?s1 = "s\<lparr> clock := clock s + 1 \<rparr>"
  from assms(1) obtain g where g: "closeTimeoutRef s = Some g"
    and G: "\<lparr> tid = g, due = D, callback = GraceClose \<rparr> \<in> set (timers s)"
    and own: "list_all (owned (Some g) (keepAliveIntervalRef s)) (timers s)"
    and dues: "list_all (\<lambda>t. case callback t of GraceClose \<Rightarrow> due t = D | Heartbeat \<Rightarrow> True) (timers s)"
    and conn: "connectionRef s \<noteq> None"
    by (auto simp add: grace_armed_def timers_wf_def timer_table_wf_def split: option.splits)
  from conn grace_armed_cong [OF assms(1), of ?s1] have a: "grace_armed D ?s1"
    by simp
  have els: "list_all (\<lambda>t. t = \<lparr> tid = g, due = D, callback = GraceClose \<rparr>
                       \<or> (callback t = Heartbeat \<and> keepAliveIntervalRef s = Some (tid t)))
               (filter (\<lambda>t. due t = D) (timers s))"
    unfolding list_all_iff
  proof
    fix t assume "t \<in> set (filter (\<lambda>t. due t = D) (timers s))"
    then have m: "t \<in> set (timers s)" and d: "due t = D" by simp_all
    from own m have o: "owned (Some g) (keepAliveIntervalRef s) t"
      by (simp add: list_all_iff)
    show "t = \<lparr> tid = g, due = D, callback = GraceClose \<rparr>
           \<or> (callback t = Heartbeat \<and> keepAliveIntervalRef s = Some (tid t))"
    proof (cases "callback t")
      case GraceClose
      with o d have "t = \<lparr> tid = g, due = D, callback = GraceClose \<rparr>"
        by (cases t) (simp add: owned_def)
      then show ?thesis by simp
    next
      case Heartbeat
      with o show ?thesis by (simp add: owned_def)
    qed
  qed
  have mem: "\<lparr> tid = g, due = D, callback = GraceClose \<rparr> \<in> set (filter (\<lambda>t. due t = D) (timers s))"
    using G by simp
  have "closed_after (finish_calls s) (fold fire (filter (\<lambda>t. due t = D) (timers s)) ?s1)"
    by (rule fold_fire_at_due [OF a _ _ _ els mem]) (simp_all add: finish_calls_def g)
  then show ?thesis
    using assms(2) by (simp add: tick_def Let_def)
qed

lemma no_grace_cong:
  assumes "no_grace s" and "timers s' = timers s"
  shows "no_grace s'"
  using assms by (simp add: no_grace_def)

lemma mic_granted_finish: "finish_calls (mic_granted s) = finish_calls s"
  by (auto simp add: mic_granted_def startMicrophone_def initConnection_def getDeepgramClient_def
      createTranscriptionConnection_def listen_live_def start_recording_def handleStart_catch_def
      finish_calls_def Let_def
      split: option.splits prod.splits init_result.splits if_splits sum.splits list.splits)

lemma keepAlive_no_grace:
  assumes "no_grace s"
  shows "no_grace (startKeepAlive s) \<and> no_grace (stopKeepAlive s)"
  using assms
  by (simp add: no_grace_def startKeepAlive_def stopKeepAlive_def clear_timer_def Let_def
      list_all_iff split: option.splits)

lemma fire_no_grace:
  assumes "no_grace s" and "callback t = Heartbeat"
  shows "no_grace (fire t s) \<and> finish_calls (fire t s) = finish_calls s"
proof -
  note f = fire_heartbeat_fields [OF assms(2), of s]
  have "list_all (\<lambda>t. callback t = Heartbeat) (rearm (tid t) (timers s))"
    using assms(1) by (auto simp add: no_grace_def rearm_def clear_timer_def list_all_iff)
  with f assms(1) show ?thesis by (auto simp add: no_grace_def)
qed

lemma fold_fire_no_grace:
  assumes "no_grace s" and "list_all (\<lambda>t. callback t = Heartbeat) ts"
  shows "no_grace (fold fire ts s) \<and> finish_calls (fold fire ts s) = finish_calls s"
  using assms
proof (induction ts arbitrary: s)
  case Nil
  then show ?case by simp
next
  case (Cons t ts)
  from Cons.prems(2) have t: "callback t = Heartbeat"
    and rest: "list_all (\<lambda>t. callback t = Heartbeat) ts" by simp_all
  from fire_no_grace [OF Cons.prems(1) t] Cons.IH [of "fire t s"] rest
  show ?case by simp
qed

lemma tick_no_grace:
  assumes "no_grace s"
  shows "no_grace (tick s) \<and> finish_calls (tick s) = finish_calls s"
proof -
  let ?s1 = "s\<lparr> clock := clock s + 1 \<rparr>"
  have a: "no_grace ?s1" using assms by (simp add: no_grace_def)
  have b: "list_all (\<lambda>t. callback t = Heartbeat) (filter (\<lambda>t. due t = clock s + 1) (timers ?s1))"
    using assms by (simp add: no_grace_def list_all_iff)
  from fold_fire_no_grace [OF a b] show ?thesis
    by (simp add: tick_def Let_def finish_calls_def)
qed

lemma quiet_step_no_grace:
  assumes "no_grace s" and "quiet e"
  shows "no_grace (step e s) \<and> finish_calls (step e s) = finish_calls s"
proof (cases e)
  case HandleStart
  with assms show ?thesis by simp
next
  case HandleStop
  with assms show ?thesis by simp
next
  case ClearTranscription
  with assms show ?thesis
    by (simp add: clearTranscription_def finish_calls_def no_grace_def)
next
  case MicGranted
  with assms no_grace_cong [of s "mic_granted s"] show ?thesis
    by (simp add: mic_granted_timers mic_granted_finish)
next
  case (MicDenied x)
  with assms no_grace_cong [of s "mic_denied x s"] show ?thesis
    by (simp add: mic_denied_timers finish_calls_def)
next
  case (ConnOpen c)
  let ?s1 = "set_ready_state c 1 s\<lparr>connectionStatus := Online\<rparr>"
  have a: "no_grace ?s1"
    using assms(1) by (simp add: set_ready_state_timers no_grace_def)
  from keepAlive_no_grace [OF a] have "no_grace (startKeepAlive ?s1)" by simp
  then have "no_grace (resolve c (startKeepAlive ?s1))"
    by (simp add: no_grace_def resolve_timers)
  moreover have "finish_calls (resolve c (startKeepAlive ?s1)) = finish_calls s"
    by (simp add: finish_calls_def resolve_timers keepAlive_calls set_ready_state_timers)
  ultimately show ?thesis using ConnOpen assms(1) by (simp add: on_open_def)
next
  case (ConnResults c d)
  with assms show ?thesis
    by (simp add: on_results_timers finish_calls_def no_grace_def)
next
  case (ConnError c x)
  with assms show ?thesis
    by (simp add: on_error_timers finish_calls_def no_grace_def)
next
  case (ConnClose c)
  let ?s1 = "set_ready_state c 3 s\<lparr>connectionStatus := Offline\<rparr>"
  have a: "no_grace ?s1"
    using assms(1) by (simp add: set_ready_state_timers no_grace_def)
  from keepAlive_no_grace [OF a] have "no_grace (stopKeepAlive ?s1)" by simp
  moreover have "finish_calls (stopKeepAlive ?s1) = finish_calls s"
    by (simp add: finish_calls_def stopKeepAlive_calls set_ready_state_timers)
  ultimately show ?thesis using ConnClose assms(1) by (simp add: on_close_def)
next
  case (SocketState c n)
  with assms show ?thesis
    by (simp add: set_ready_state_timers finish_calls_def no_grace_def)
next
  case (DataAvailable r b)
  with assms show ?thesis
    by (simp add: ondataavailable_timers ondataavailable_finish no_grace_def
        split: option.splits)
next
  case Tick
  with assms show ?thesis by (simp add: tick_no_grace)
next
  case Teardown
  with assms show ?thesis by simp
qed

lemma quiet_run_no_grace:
  assumes "no_grace s" and "list_all quiet es"
  shows "finish_calls (run es s) = finish_calls s"
  using assms
proof (induction es arbitrary: s)
  case Nil
  then show ?case by (simp add: run_def)
next
  case (Cons e es)
  from Cons.prems(2) have q: "quiet e" and qs: "list_all quiet es" by simp_all
  from quiet_step_no_grace [OF Cons.prems(1) q] have
    a: "no_grace (step e s)" and b: "finish_calls (step e s) = finish_calls s" by simp_all
  from Cons.IH [OF a qs] b show ?case by (simp add: run_def del: step.simps)
qed

lemma quiet_run_keeps_grace:
  assumes "grace_armed D s" and "list_all quiet es" and "clock s + ticks es < D"
  shows "grace_armed D (run es s) \<and> finish_calls (run es s) = finish_calls s
    \<and> clock (run es s) = clock s + ticks es"
  using assms
proof (induction es arbitrary: s)
  case Nil
  then show ?case by (simp add: run_def ticks_def)
next
  case (Cons e es)
  from Cons.prems(2) have q: "quiet e" and qs: "list_all quiet es" by simp_all
  have step_ok: "grace_armed D (step e s) \<and> finish_calls (step e s) = finish_calls s
      \<and> clock (step e s) + ticks es = clock s + ticks (e # es)"
  proof (cases "is_tick e")
    case True
    then have e: "e = Tick" by (cases e) simp_all
    from Cons.prems(3) True have "clock s + 1 \<noteq> D" by (simp add: ticks_def)
    from tick_before_due [OF Cons.prems(1) this] e True show ?thesis
      by (simp add: ticks_def)
  next
    case False
    from quiet_step_keeps_grace [OF Cons.prems(1) q False] False show ?thesis
      by (simp add: ticks_def)
  qed
  then have a: "grace_armed D (step e s)" and b: "finish_calls (step e s) = finish_calls s"
    and c: "clock (step e s) + ticks es = clock s + ticks (e # es)" by simp_all
  from c Cons.prems(3) have d: "clock (step e s) + ticks es < D" by simp
  from Cons.IH [OF a qs d] b c show ?case by (simp add: run_def del: step.simps)
qed

lemma ticks_take: "ticks (take n es) \<le> ticks es"
proof -
  have "ticks es = ticks (take n es) + ticks (drop n es)"
    unfolding ticks_def by (metis append_take_drop_id filter_append length_append)
  then show ?thesis by simp
qed

lemma quiet_take:
  assumes "list_all quiet es"
  shows "list_all quiet (take n es)"
  using assms by (auto simp add: list_all_iff dest: in_set_takeD)

text \<open>
  C8. The component holds a connection handle and the button is released. Then, as
  long as nobody presses or releases the button and the component stays mounted, and
  whatever else happens (connection events, chunks, answers to earlier microphone
  requests), no \<open>finish\<close> call is made during the first 59999 milliseconds; the
  60000th millisecond makes exactly one \<open>finish\<close> call and leaves the status
  \<open>Offline\<close>, no connection handle, the heartbeat interval cleared and no timer
  pending; and no further \<open>finish\<close> call follows.
\<close>

theorem grace_period_expiry:
  assumes "timers_wf s" and "connectionRef s \<noteq> None"
    and "list_all quiet es" and "ticks es = 59999" and "list_all quiet fs"
  shows "finish_calls (run (take n es) (handleStop s)) = finish_calls s
    \<and> finish_calls (run (es @ [Tick]) (handleStop s)) = finish_calls s + 1
    \<and> connectionStatus (run (es @ [Tick]) (handleStop s)) = Offline
    \<and> keepAliveIntervalRef (run (es @ [Tick]) (handleStop s)) = None
    \<and> connectionRef (run (es @ [Tick]) (handleStop s)) = None
    \<and> timers (run (es @ [Tick]) (handleStop s)) = []
    \<and> finish_calls (run (es @ Tick # fs) (handleStop s)) = finish_calls s + 1"
proof -
  let ?D = "clock s + 60000"
  let ?s0 = "handleStop s"
  from handleStop_arms [OF assms(1,2)] have
    armed: "grace_armed ?D ?s0" and f0: "finish_calls ?s0 = finish_calls s"
    and c0: "clock ?s0 = clock s" by simp_all
  have before: "finish_calls (run (take n es) ?s0) = finish_calls s"
  proof -
    from ticks_take [of n es] assms(4) c0 have "clock ?s0 + ticks (take n es) < ?D" by simp
    from quiet_run_keeps_grace [OF armed quiet_take [OF assms(3)] this] f0
    show ?thesis by simp
  qed
  let ?s1 = "run es ?s0"
  from assms(4) c0 have "clock ?s0 + ticks es < ?D" by simp
  from quiet_run_keeps_grace [OF armed assms(3) this] f0 c0 assms(4) have
    armed1: "grace_armed ?D ?s1" and f1: "finish_calls ?s1 = finish_calls s"
    and c1: "clock ?s1 + 1 = ?D" by simp_all
  let ?s2 = "run (es @ [Tick]) ?s0"
  have e2: "?s2 = tick ?s1" by (simp add: run_def)
  from tick_at_due [OF armed1 c1] f1 have closed: "closed_after (finish_calls s) ?s2"
    unfolding e2 by simp
  then have ng: "no_grace ?s2" by (simp add: closed_after_def no_grace_def)
  have e3: "run (es @ Tick # fs) ?s0 = run fs ?s2" by (simp add: run_def)
  from quiet_run_no_grace [OF ng assms(5)] closed
  have after: "finish_calls (run (es @ Tick # fs) ?s0) = finish_calls s + 1"
    unfolding e3 by (simp add: closed_after_def)
  from before closed after show ?thesis by (simp add: closed_after_def)
qed

lemma reachable_timers_wf: "timers_wf (run es (init key types))"
proof -
  have "timers_wf s \<Longrightarrow> timers_wf (run es s)" for s
  proof (induction es arbitrary: s)
    case Nil
    then show ?case by (simp add: run_def)
  next
    case (Cons e es)
    from Cons.IH [OF step_wf [OF Cons.prems, of e]] show ?case
      by (simp add: run_def del: step.simps)
  qed
  with timers_wf_init show ?thesis by blast
qed

theorem grace_period_expiry_witness:
  "timers_wf capturing \<and> connectionRef capturing \<noteq> None
   \<and> list_all quiet (replicate 59999 Tick) \<and> ticks (replicate 59999 Tick) = 59999
   \<and> list_all quiet [ConnClose 0]
   \<and> finish_calls capturing = 0
   \<and> finish_calls (run (take 30000 (replicate 59999 Tick)) (handleStop capturing)) = 0
   \<and> finish_calls (run (replicate 59999 Tick @ [Tick]) (handleStop capturing)) = 1
   \<and> connectionStatus (run (replicate 59999 Tick @ [Tick]) (handleStop capturing)) = Offline
   \<and> keepAliveIntervalRef (run (replicate 59999 Tick @ [Tick]) (handleStop capturing)) = None
   \<and> connectionRef (run (replicate 59999 Tick @ [Tick]) (handleStop capturing)) = None
   \<and> timers (run (replicate 59999 Tick @ [Tick]) (handleStop capturing)) = []
   \<and> finish_calls (run (replicate 59999 Tick @ Tick # [ConnClose 0]) (handleStop capturing)) = 1"
proof -
  have h1: "timers_wf capturing"
    unfolding capturing_def by (rule reachable_timers_wf)
  have h2: "connectionRef capturing \<noteq> None"
    by (simp add: capturing_def run_def model_defs Let_def)
  have h3: "list_all quiet (replicate 59999 Tick)"
    by (simp add: list_all_iff)
  have h4: "ticks (replicate 59999 Tick) = 59999"
    by (simp add: ticks_def)
  have h5: "list_all quiet [ConnClose 0]"
    by simp
  have f0: "finish_calls capturing = 0"
    by (simp add: finish_calls_def capturing_def run_def model_defs Let_def)
  from grace_period_expiry [OF h1 h2 h3 h4 h5, of 30000] h1 h2 h3 h4 h5 f0
  show ?thesis by (simp del: step.simps replicate.simps take_replicate)
qed

end
